theory Spec2Isabelle
  imports Main "HOL-Library.Sublist"
begin

section \<open>Strings\<close>

text \<open>
  Source strings are modelled as \<^typ>\<open>string\<close>. A character stands for one code unit below
  \<open>0x100\<close>: ASCII and the Latin-1 supplement. Texts with other code units are not
  represented. On these code units the case mappings, the white space class and the
  regular expression flags below are those of the language.
\<close>

definition code_units :: "string \<Rightarrow> nat list" where
  "code_units s = map of_char s"

text \<open>
  The upper case of a code unit in the case conversion that \<open>toUpperCase\<close> applies: the
  letters \<open>a\<close> to \<open>z\<close> and \<open>U+00E0\<close> to \<open>U+00FE\<close> (the division sign \<open>U+00F7\<close> apart) move down by
  \<open>0x20\<close>, the sharp s \<open>U+00DF\<close> becomes \<open>SS\<close>, the micro sign \<open>U+00B5\<close> becomes \<open>U+039C\<close> and
  \<open>U+00FF\<close> becomes \<open>U+0178\<close>. The result leaves the range of a character, so it is given in
  code units.
\<close>

definition upper_units :: "char \<Rightarrow> nat list" where
  "upper_units c =
     (let n = of_char c in
        if (0x61 \<le> n \<and> n \<le> 0x7A) \<or> (0xE0 \<le> n \<and> n \<le> 0xFE \<and> n \<noteq> 0xF7) then [n - 0x20]
        else if n = 0xDF then [0x53, 0x53]
        else if n = 0xB5 then [0x39C]
        else if n = 0xFF then [0x178]
        else [n])"

definition toUpperCase :: "string \<Rightarrow> nat list" where
  "toUpperCase s = concat (map upper_units s)"

text \<open>The lower case: the letters \<open>A\<close> to \<open>Z\<close> and \<open>U+00C0\<close> to \<open>U+00DE\<close> (the multiplication
  sign \<open>U+00D7\<close> apart) move up by \<open>0x20\<close>.\<close>

definition to_lower :: "char \<Rightarrow> char" where
  "to_lower c =
     (let n = of_char c :: nat in
        if (0x41 \<le> n \<and> n \<le> 0x5A) \<or> (0xC0 \<le> n \<and> n \<le> 0xDE \<and> n \<noteq> 0xD7) then char_of (n + 0x20)
        else c)"

definition toLowerCase :: "string \<Rightarrow> string" where
  "toLowerCase s = map to_lower s"

text \<open>White space and line terminators (what \<open>trim\<close> strips and \<open>\s\<close> matches): tab, line
  feed, vertical tab, form feed, carriage return, space and the no-break space \<open>U+00A0\<close>.\<close>

definition is_space :: "char \<Rightarrow> bool" where
  "is_space c \<longleftrightarrow> c \<in> set [CHR 0x09, CHR 0x0A, CHR 0x0B, CHR 0x0C, CHR 0x0D, CHR 0x20, CHR 0xA0]"

definition trim :: "string \<Rightarrow> string" where
  "trim s = rev (dropWhile is_space (rev (dropWhile is_space s)))"

text \<open>\<open>Array.prototype.join\<close>.\<close>

fun join :: "string \<Rightarrow> string list \<Rightarrow> string" where
  "join sep [] = []"
| "join sep [x] = x"
| "join sep (x # y # ys) = x @ sep @ join sep (y # ys)"

section \<open>Regular expressions\<close>

text \<open>
  The regular expressions of the source are built from a handful of constructs. Each is
  modelled as a backtracking matcher in continuation-passing style: a matcher takes the
  continuation \<open>k\<close> for the rest of the pattern and the remaining input, and returns the
  first result in the engine's priority order, or \<open>None\<close> when every alternative fails.
  The last continuation, \<open>accept\<close>, returns the input left after the match.
\<close>

definition accept :: "string \<Rightarrow> string option" where
  "accept s = Some s"

text \<open>A literal, compared code unit by code unit.\<close>

definition lit :: "string \<Rightarrow> (string \<Rightarrow> 'a option) \<Rightarrow> string \<Rightarrow> 'a option" where
  "lit l k s = (if prefix l s then k (drop (length l) s) else None)"

text \<open>
  Under the \<open>i\<close> flag (without the \<open>u\<close> flag) code units are compared after
  canonicalisation: a code unit is replaced by its upper case when that is a single code
  unit, unless this would turn a code unit outside ASCII into an ASCII one.
\<close>

definition canonicalize :: "char \<Rightarrow> nat" where
  "canonicalize ch =
     (case upper_units ch of
        [cu] \<Rightarrow> if 128 \<le> (of_char ch :: nat) \<and> cu < 128 then of_char ch else cu
      | _ \<Rightarrow> of_char ch)"

text \<open>A literal under the \<open>i\<close> flag.\<close>

fun ci_prefix :: "string \<Rightarrow> string \<Rightarrow> bool" where
  "ci_prefix [] s = True"
| "ci_prefix (a # l) [] = False"
| "ci_prefix (a # l) (c # s) = (if canonicalize a = canonicalize c then ci_prefix l s else False)"

definition lit_ci :: "string \<Rightarrow> (string \<Rightarrow> 'a option) \<Rightarrow> string \<Rightarrow> 'a option" where
  "lit_ci l k s = (if ci_prefix l s then k (drop (length l) s) else None)"

text \<open>The capturing group \<open>(.*?)\<close> under the \<open>s\<close> flag: the shortest run of arbitrary
  characters after which the rest of the pattern matches.\<close>

fun lazy_star :: "(string \<Rightarrow> 'a option) \<Rightarrow> string \<Rightarrow> (string \<times> 'a) option" where
  "lazy_star k [] = map_option (Pair []) (k [])"
| "lazy_star k (c # cs) =
     (case k (c # cs) of
        Some r \<Rightarrow> Some ([], r)
      | None \<Rightarrow> map_option (\<lambda>(x, r). (c # x, r)) (lazy_star k cs))"

text \<open>The capturing group \<open>(.+?)\<close> under the \<open>s\<close> flag: as above, with at least one
  character.\<close>

definition lazy_plus :: "(string \<Rightarrow> 'a option) \<Rightarrow> string \<Rightarrow> (string \<times> 'a) option" where
  "lazy_plus k s =
     (case s of
        [] \<Rightarrow> None
      | c # cs \<Rightarrow> map_option (\<lambda>(x, r). (c # x, r)) (lazy_star k cs))"

text \<open>A greedy repetition of a character class (\<open>\s*\<close>, \<open>[^{}]+\<close>): the longest run
  first, giving characters back one at a time while the rest of the pattern fails.\<close>

fun greedy_star :: "(char \<Rightarrow> bool) \<Rightarrow> (string \<Rightarrow> 'a option) \<Rightarrow> string \<Rightarrow> 'a option" where
  "greedy_star p k [] = k []"
| "greedy_star p k (c # cs) =
     (if p c then (case greedy_star p k cs of Some r \<Rightarrow> Some r | None \<Rightarrow> k (c # cs))
      else k (c # cs))"

definition greedy_plus :: "(char \<Rightarrow> bool) \<Rightarrow> (string \<Rightarrow> 'a option) \<Rightarrow> string \<Rightarrow> 'a option" where
  "greedy_plus p k s = (case s of [] \<Rightarrow> None | c # cs \<Rightarrow> if p c then greedy_star p k cs else None)"

text \<open>Searching without the \<open>g\<close> flag: the match at the leftmost start position.\<close>

fun regex_search :: "(string \<Rightarrow> 'a option) \<Rightarrow> string \<Rightarrow> 'a option" where
  "regex_search m [] = m []"
| "regex_search m (c # cs) = (case m (c # cs) of Some r \<Rightarrow> Some r | None \<Rightarrow> regex_search m cs)"

text \<open>
  Searching with the \<open>g\<close> flag cuts the input into the characters no match covers and
  the successive matches, each with its captures, the matched text, the input before it
  and the input after it. \<open>skip\<close> counts the characters of the current match still to be
  passed over (the distance to \<open>lastIndex\<close>); after an empty match the search advances by
  one character.
\<close>

datatype 'a segment = Unmatched char | Matched 'a string string string

fun segments :: "(string \<Rightarrow> ('a \<times> string) option) \<Rightarrow> string \<Rightarrow> nat \<Rightarrow> string \<Rightarrow> 'a segment list" where
  "segments m pre skip [] =
     (if 0 < skip then []
      else case m [] of None \<Rightarrow> [] | Some (a, rest) \<Rightarrow> [Matched a [] pre []])"
| "segments m pre skip (c # cs) =
     (if 0 < skip then segments m (pre @ [c]) (skip - 1) cs
      else case m (c # cs) of
             None \<Rightarrow> Unmatched c # segments m (pre @ [c]) 0 cs
           | Some (a, rest) \<Rightarrow>
               (let n = length (c # cs) - length rest in
                  Matched a (take n (c # cs)) pre rest #
                    (if n = 0 then Unmatched c # segments m (pre @ [c]) 0 cs
                     else segments m (pre @ [c]) (n - 1) cs)))"

definition matches :: "'a segment list \<Rightarrow> ('a \<times> string) list" where
  "matches segs = concat (map (\<lambda>seg. case seg of Unmatched c \<Rightarrow> [] | Matched a mt b af \<Rightarrow> [(a, mt)]) segs)"

section \<open>extractXml\<close>

text \<open>
  \<^verbatim>\<open>new RegExp(`<${escapedTag}>(.+?)<\/${escapedTag}>`, 'is')\<close>: the tag is escaped, so it
  stands for itself; the flags make the literals case-insensitive and let the dot match
  line terminators.
\<close>

definition xml_regex :: "string \<Rightarrow> string \<Rightarrow> (string \<times> string) option" where
  "xml_regex tag = lit_ci (''<'' @ tag @ ''>'') (lazy_plus (lit_ci (''</'' @ tag @ ''>'') accept))"

definition extractXml :: "string \<Rightarrow> string \<Rightarrow> string" where
  "extractXml text tag =
     (case regex_search (xml_regex tag) text of
        Some (content, rest) \<Rightarrow> trim content
      | None \<Rightarrow> [])"

section \<open>The Completion Client\<close>

text \<open>
  \<open>generateContent\<close> is the external service: given its own state and a prompt it either
  throws or answers, and the answer may lack the text of the first candidate. Its state
  makes it free to answer the same prompt differently from call to call. The world
  holds that state and the prompts sent so far, in the order they were sent.
\<close>

datatype error =
    ApiError string
  | InvalidResponse
  | InvalidRoute string
  | MissingPromptVariables "string list"

datatype api_reply = Throws string | Response "string option"

type_synonym 's api = "'s \<Rightarrow> string \<Rightarrow> api_reply \<times> 's"

record 's world =
  client :: 's
  sent :: "string list"

text \<open>\<open>llmCall\<close> returns the text when it is there and not empty (an empty string is
  falsy), and throws otherwise; an error of the service is logged and thrown again.\<close>

definition reply_text :: "api_reply \<Rightarrow> error + string" where
  "reply_text r =
     (case r of
        Throws msg \<Rightarrow> Inl (ApiError msg)
      | Response None \<Rightarrow> Inl InvalidResponse
      | Response (Some t) \<Rightarrow> if t = [] then Inl InvalidResponse else Inr t)"

text \<open>A call has two moments: the request is sent when \<open>llmCall\<close> is called, and the
  promise settles when the service answers, from the state the service is in by then.
  Sequential code awaits the answer at once. The system instruction and the model name
  keep their defaults in every call of the source and are left out.\<close>

definition issue :: "'s world \<Rightarrow> string \<Rightarrow> 's world" where
  "issue w prompt = w\<lparr>sent := sent w @ [prompt]\<rparr>"

definition settle :: "'s api \<Rightarrow> 's world \<Rightarrow> string \<Rightarrow> (error + string) \<times> 's world" where
  "settle api w prompt =
     (case api (client w) prompt of (r, s') \<Rightarrow> (reply_text r, w\<lparr>client := s'\<rparr>))"

definition llmCall :: "'s api \<Rightarrow> 's world \<Rightarrow> string \<Rightarrow> (error + string) \<times> 's world" where
  "llmCall api w prompt = settle api (issue w prompt) prompt"

section \<open>chain\<close>

fun chain :: "'s api \<Rightarrow> 's world \<Rightarrow> string \<Rightarrow> string list \<Rightarrow> (error + string) \<times> 's world" where
  "chain api w result [] = (Inr result, w)"
| "chain api w result (prompt # prompts) =
     (case llmCall api w (prompt @ ''\<newline>Input: '' @ result) of
        (Inl e, w') \<Rightarrow> (Inl e, w')
      | (Inr r, w') \<Rightarrow> chain api w' r prompts)"

section \<open>Promise.all and parallel\<close>

text \<open>
  When \<open>map\<close> returns, the promise of each asynchronous worker is either rejected already
  (the worker threw before its first \<open>await\<close>) or waits for one \<open>llmCall\<close>, whose answer the
  rest of the worker turns into the promise's value.
\<close>

datatype 'a promise = RejectedEarly error | Awaiting string "string \<Rightarrow> 'a"

text \<open>
  The pending calls settle in the order \<open>sched\<close>. \<open>Promise.all\<close> stores the value of the
  promise with index \<open>i\<close> at index \<open>i\<close> and resolves with the values once none is missing;
  the first rejection rejects it, and what the other calls answer after that is
  discarded. \<open>None\<close> is a promise that never settles.
\<close>

fun settle_all ::
  "'s api \<Rightarrow> (nat \<times> string \<times> (string \<Rightarrow> 'a)) list \<Rightarrow> 'a option list \<Rightarrow> 's world \<Rightarrow>
     ((error + 'a list) \<times> 's world) option" where
  "settle_all api sched vs w =
     (case those vs of
        Some rs \<Rightarrow> Some (Inr rs, w)
      | None \<Rightarrow>
          (case sched of
             [] \<Rightarrow> None
           | (i, prompt, k) # rest \<Rightarrow>
               (case settle api w prompt of
                  (Inl e, w') \<Rightarrow> Some (Inl e, w')
                | (Inr t, w') \<Rightarrow> settle_all api rest (vs[i := Some (k t)]) w')))"

text \<open>
  The requests go out in index order while \<open>map\<close> runs. A promise rejected by then
  rejects \<open>Promise.all\<close> before any answer arrives, the one with the least index first.
  Otherwise call \<open>i\<close> is answered at time \<open>latency i\<close>, calls with the same time in index
  order: every order of completion is the order of some \<open>latency\<close>.
\<close>

definition completion_order :: "(nat \<Rightarrow> nat) \<Rightarrow> 'b list \<Rightarrow> (nat \<times> 'b) list" where
  "completion_order latency jobs = sort_key (\<lambda>(i, j). latency i) (enumerate 0 jobs)"

definition pending :: "'a promise list \<Rightarrow> (string \<times> (string \<Rightarrow> 'a)) list" where
  "pending ps = [(prompt, k). Awaiting prompt k \<leftarrow> ps]"

definition rejected :: "'a promise list \<Rightarrow> error list" where
  "rejected ps = [e. RejectedEarly e \<leftarrow> ps]"

definition promise_all ::
  "'s api \<Rightarrow> (nat \<Rightarrow> nat) \<Rightarrow> 'a promise list \<Rightarrow> 's world \<Rightarrow> ((error + 'a list) \<times> 's world) option" where
  "promise_all api latency ps w =
     (let w1 = foldl issue w (map fst (pending ps)) in
        case rejected ps of
          e # es \<Rightarrow> Some (Inl e, w1)
        | [] \<Rightarrow>
            settle_all api (completion_order latency (pending ps)) (replicate (length ps) None) w1)"

definition parallel ::
  "'s api \<Rightarrow> (nat \<Rightarrow> nat) \<Rightarrow> 's world \<Rightarrow> string \<Rightarrow> string list \<Rightarrow>
     ((error + string list) \<times> 's world) option" where
  "parallel api latency w prompt inputs =
     promise_all api latency
       (map (\<lambda>input. Awaiting (prompt @ ''\<newline>Input: '' @ input) (\<lambda>t. t)) inputs) w"

section \<open>route\<close>

text \<open>
  An object is the list of its own properties in enumeration order; all values here are
  strings. Reading a property that is not its own finds the members every object
  inherits, and \<open>undefined\<close> otherwise. The text of an inherited function is the engine's;
  V8's is given.
\<close>

type_synonym jsobject = "(string \<times> string) list"

datatype jsvalue = Undefined | StringValue string | Inherited string

definition object_prototype_names :: "string list" where
  "object_prototype_names =
     [''constructor'', ''__defineGetter__'', ''__defineSetter__'', ''hasOwnProperty'',
      ''__lookupGetter__'', ''__lookupSetter__'', ''isPrototypeOf'', ''propertyIsEnumerable'',
      ''toString'', ''valueOf'', ''__proto__'', ''toLocaleString'']"

definition get_property :: "jsobject \<Rightarrow> string \<Rightarrow> jsvalue" where
  "get_property obj key =
     (case map_of obj key of
        Some v \<Rightarrow> StringValue v
      | None \<Rightarrow> if key \<in> set object_prototype_names then Inherited key else Undefined)"

definition truthy :: "jsvalue \<Rightarrow> bool" where
  "truthy v = (case v of Undefined \<Rightarrow> False | StringValue s \<Rightarrow> s \<noteq> [] | Inherited n \<Rightarrow> True)"

definition to_string :: "jsvalue \<Rightarrow> string" where
  "to_string v =
     (case v of
        Undefined \<Rightarrow> ''undefined''
      | StringValue s \<Rightarrow> s
      | Inherited n \<Rightarrow>
          if n = ''__proto__'' then ''[object Object]''
          else ''function '' @ (if n = ''constructor'' then ''Object'' else n) @ ''() { [native code] }'')"

definition selectorPrompt :: "string list \<Rightarrow> string \<Rightarrow> string" where
  "selectorPrompt routeKeys input =
     trim (''\<newline>Analyze the input and select the most appropriate support team from these options: ''
       @ join '', '' routeKeys
       @ ''\<newline>First explain your reasoning, then provide your selection in this XML format:\<newline>\<newline><reasoning>\<newline>Brief explanation of why this ticket should be routed to a specific team.\<newline>Consider key terms, user intent, and urgency level.\<newline></reasoning>\<newline>\<newline><selection>\<newline>The chosen team name\<newline></selection>\<newline>\<newline>Input: ''
       @ input)"

definition route :: "'s api \<Rightarrow> 's world \<Rightarrow> string \<Rightarrow> jsobject \<Rightarrow> (error + string) \<times> 's world" where
  "route api w input routes =
     (case llmCall api w (selectorPrompt (map fst routes) input) of
        (Inl e, w1) \<Rightarrow> (Inl e, w1)
      | (Inr routeResponse, w1) \<Rightarrow>
          (let routeKey = toLowerCase (trim (extractXml routeResponse ''selection''));
               selectedPrompt = get_property routes routeKey
           in if \<not> truthy selectedPrompt then (Inl (InvalidRoute routeKey), w1)
              else llmCall api w1 (to_string selectedPrompt @ ''\<newline>Input: '' @ input)))"

section \<open>generate, evaluate, loop\<close>

definition generate ::
  "'s api \<Rightarrow> 's world \<Rightarrow> string \<Rightarrow> string \<Rightarrow> string \<Rightarrow> (error + string \<times> string) \<times> 's world" where
  "generate api w prompt task context =
     (let fullPrompt =
            (if context \<noteq> [] then prompt @ ''\<newline>'' @ context @ ''\<newline>Task: '' @ task
             else prompt @ ''\<newline>Task: '' @ task)
      in case llmCall api w fullPrompt of
           (Inl e, w') \<Rightarrow> (Inl e, w')
         | (Inr response, w') \<Rightarrow>
             (Inr (extractXml response ''thoughts'', extractXml response ''response''), w'))"

definition evaluate ::
  "'s api \<Rightarrow> 's world \<Rightarrow> string \<Rightarrow> string \<Rightarrow> string \<Rightarrow> (error + string \<times> string) \<times> 's world" where
  "evaluate api w prompt content task =
     (let fullPrompt =
            prompt @ ''\<newline>Original task: '' @ task @ ''\<newline>Content to evaluate: '' @ content
      in case llmCall api w fullPrompt of
           (Inl e, w') \<Rightarrow> (Inl e, w')
         | (Inr response, w') \<Rightarrow>
             (Inr (extractXml response ''evaluation'', extractXml response ''feedback''), w'))"

record chainOfThoughtItem =
  thoughts :: string
  result :: string

definition feedback_context :: "string list \<Rightarrow> string \<Rightarrow> string" where
  "feedback_context memory feedback =
     join ''\<newline>''
       ([''Previous attempts:''] @ map (\<lambda>m. ''- '' @ m) memory @ [''\<newline>Feedback: '' @ feedback])"

text \<open>The body of \<open>while (true)\<close>, from the state the loop variables are in. The loop has
  no bound: \<open>None\<close> is a run that never returns.\<close>

partial_function (option) refine ::
  "'s api \<Rightarrow> string \<Rightarrow> string \<Rightarrow> string \<Rightarrow> string list \<Rightarrow> chainOfThoughtItem list \<Rightarrow> string \<Rightarrow>
     's world \<Rightarrow> ((error + string \<times> chainOfThoughtItem list) \<times> 's world) option" where
  "refine api task evaluatorPrompt generatorPrompt memory chainOfThought res w =
     (case evaluate api w evaluatorPrompt res task of
        (Inl e, w1) \<Rightarrow> Some (Inl e, w1)
      | (Inr (evaluation, feedback), w1) \<Rightarrow>
          if toUpperCase evaluation = code_units ''PASS'' then Some (Inr (res, chainOfThought), w1)
          else (case generate api w1 generatorPrompt task (feedback_context memory feedback) of
                  (Inl e, w2) \<Rightarrow> Some (Inl e, w2)
                | (Inr (thoughts', res'), w2) \<Rightarrow>
                    refine api task evaluatorPrompt generatorPrompt (memory @ [res'])
                      (chainOfThought @ [\<lparr>thoughts = thoughts', result = res'\<rparr>]) res' w2))"

declare refine.simps [code]

definition loop ::
  "'s api \<Rightarrow> 's world \<Rightarrow> string \<Rightarrow> string \<Rightarrow> string \<Rightarrow>
     ((error + string \<times> chainOfThoughtItem list) \<times> 's world) option" where
  "loop api w task evaluatorPrompt generatorPrompt =
     (case generate api w generatorPrompt task [] of
        (Inl e, w1) \<Rightarrow> Some (Inl e, w1)
      | (Inr (thoughts', res), w1) \<Rightarrow>
          refine api task evaluatorPrompt generatorPrompt [res]
            [\<lparr>thoughts = thoughts', result = res\<rparr>] res w1)"

section \<open>FlexibleOrchestrator\<close>

subsection \<open>formatPrompt\<close>

text \<open>
  The replacement text of \<open>String.prototype.replace\<close> for a pattern without capture
  groups: \<open>$$\<close> is a dollar sign, \<open>$&\<close> the matched text, \<open>$`\<close> the input before the match,
  \<open>$'\<close> the input after it, and any other dollar sign stands for itself.
\<close>

fun getSubstitution :: "string \<Rightarrow> string \<Rightarrow> string \<Rightarrow> string \<Rightarrow> string" where
  "getSubstitution matched pre post (c # d # cs) =
     (if c = CHR ''$'' \<and> d = CHR ''$'' then CHR ''$'' # getSubstitution matched pre post cs
      else if c = CHR ''$'' \<and> d = CHR ''&'' then matched @ getSubstitution matched pre post cs
      else if c = CHR ''$'' \<and> d = CHR 0x60 then pre @ getSubstitution matched pre post cs
      else if c = CHR ''$'' \<and> d = CHR 0x27 then post @ getSubstitution matched pre post cs
      else c # getSubstitution matched pre post (d # cs))"
| "getSubstitution matched pre post cs = cs"

definition replace_all :: "(string \<Rightarrow> ('a \<times> string) option) \<Rightarrow> string \<Rightarrow> string \<Rightarrow> string" where
  "replace_all m replacement s =
     concat (map (\<lambda>seg. case seg of
                           Unmatched c \<Rightarrow> [c]
                         | Matched a matched pre post \<Rightarrow> getSubstitution matched pre post replacement)
                 (segments m [] 0 s))"

text \<open>\<^verbatim>\<open>new RegExp(`\\{${key}\\}`, 'g')\<close>. The key is not escaped; the model covers the
  keys that stand for themselves in a pattern, those without a syntax character.\<close>

definition key_regex :: "string \<Rightarrow> string \<Rightarrow> (unit \<times> string) option" where
  "key_regex key = lit (''{'' @ key @ ''}'') (\<lambda>rest. Some ((), rest))"

definition syntax_characters :: string where
  "syntax_characters = ''^$.*+?()[]{}|'' @ [CHR 0x5C]"

definition literal_key :: "string \<Rightarrow> bool" where
  "literal_key key \<longleftrightarrow> list_all (\<lambda>c. c \<notin> set syntax_characters) key"


text \<open>\<^verbatim>\<open>/\{[^{}]+\}/g\<close>\<close>

definition placeholder_regex :: "string \<Rightarrow> (unit \<times> string) option" where
  "placeholder_regex =
     lit ''{'' (greedy_plus (\<lambda>c. c \<noteq> CHR ''{'' \<and> c \<noteq> CHR ''}'') (lit ''}'' (\<lambda>rest. Some ((), rest))))"

definition remainingPlaceholders :: "string \<Rightarrow> string list" where
  "remainingPlaceholders formatted = map snd (matches (segments placeholder_regex [] 0 formatted))"

text \<open>The \<open>for ... in\<close> loop: one global replacement for each key, in enumeration order.\<close>

definition substitute :: "string \<Rightarrow> jsobject \<Rightarrow> string" where
  "substitute template kwargs =
     foldl (\<lambda>formatted (key, v). replace_all (key_regex key) v formatted) template kwargs"

definition formatPrompt :: "string \<Rightarrow> jsobject \<Rightarrow> error + string" where
  "formatPrompt template kwargs =
     (let formatted = substitute template kwargs
      in if remainingPlaceholders formatted \<noteq> [] then
           Inl (MissingPromptVariables (remainingPlaceholders formatted))
         else Inr formatted)"

text \<open>The message of the error: the placeholders left, braces included.\<close>

definition error_message :: "error \<Rightarrow> string" where
  "error_message e =
     (case e of
        ApiError msg \<Rightarrow> msg
      | InvalidResponse \<Rightarrow>
          ''Failed to get valid response text from the model. Response structure might be missing or empty.''
      | InvalidRoute routeKey \<Rightarrow> ''Selected route '' @ [CHR 0x22] @ routeKey @ [CHR 0x22] @ '' is invalid.''
      | MissingPromptVariables ps \<Rightarrow> ''Missing required prompt variable(s): '' @ join '', '' ps)"

subsection \<open>Objects built by spreading\<close>

text \<open>
  Writing a property keeps the place of a key that exists and appends a new key. This is
  the enumeration order for keys that are not array indices; a plain key is an
  identifier, which is neither an array index nor special in a pattern.
\<close>

fun set_property :: "jsobject \<Rightarrow> string \<Rightarrow> string \<Rightarrow> jsobject" where
  "set_property [] key v = [(key, v)]"
| "set_property ((key', v') # obj) key v =
     (if key' = key then (key, v) # obj else (key', v') # set_property obj key v)"

definition spread :: "jsobject \<Rightarrow> jsobject \<Rightarrow> jsobject" where
  "spread obj src = foldl (\<lambda>obj (key, v). set_property obj key v) obj src"

text \<open>The ASCII letters.\<close>

definition lower_letters :: string where
  "lower_letters = ''abcdefghijklmnopqrstuvwxyz''"

definition upper_letters :: string where
  "upper_letters = ''ABCDEFGHIJKLMNOPQRSTUVWXYZ''"

definition identifier_start :: "char \<Rightarrow> bool" where
  "identifier_start c \<longleftrightarrow> c \<in> set (lower_letters @ upper_letters @ ''_'')"

definition identifier_part :: "char \<Rightarrow> bool" where
  "identifier_part c \<longleftrightarrow> c \<in> set (lower_letters @ upper_letters @ ''_0123456789'')"

definition plain_key :: "string \<Rightarrow> bool" where
  "plain_key key \<longleftrightarrow> (case key of [] \<Rightarrow> False | c # cs \<Rightarrow> identifier_start c \<and> list_all identifier_part cs)"

definition plain_keys :: "jsobject \<Rightarrow> bool" where
  "plain_keys obj \<longleftrightarrow> list_all plain_key (map fst obj)"

subsection \<open>process\<close>

text \<open>The field \<open>result\<close> of a worker result is written \<open>result'\<close>: the items of the loop's
  history have a field of that name.\<close>

record taskInfo =
  type :: string
  description :: string

record workerResult = taskInfo +
  result' :: string

record orchestratorOutput =
  analysis :: string
  worker_results :: "workerResult list"

text \<open>
  \<^verbatim>\<open>/<task>\s*<type>(.*?)<\/type>\s*<description>(.*?)<\/description>\s*<\/task>/gis\<close>.
  A match holds \<open><task>\<close>, so it is never empty and the \<open>exec\<close> loop advances.
\<close>

definition taskRegex :: "string \<Rightarrow> ((string \<times> string) \<times> string) option" where
  "taskRegex s =
     map_option (\<lambda>(t, (d, rest)). ((t, d), rest))
       (lit_ci ''<task>'' (greedy_star is_space (lit_ci ''<type>'' (lazy_star
          (lit_ci ''</type>'' (greedy_star is_space (lit_ci ''<description>'' (lazy_star
             (lit_ci ''</description>'' (greedy_star is_space (lit_ci ''</task>'' accept))))))))))
        s)"

definition parse_tasks :: "string \<Rightarrow> taskInfo list" where
  "parse_tasks tasksXml =
     concat (map (\<lambda>((t, d), matched).
                    if t \<noteq> [] \<and> d \<noteq> [] then [\<lparr>type = trim t, description = trim d\<rparr>] else [])
                 (matches (segments taskRegex [] 0 tasksXml)))"

definition worker ::
  "string \<Rightarrow> string \<Rightarrow> jsobject \<Rightarrow> taskInfo \<Rightarrow> workerResult promise" where
  "worker workerPrompt task context taskInfo =
     (case formatPrompt workerPrompt
             (spread [(''original_task'', task), (''task_type'', type taskInfo),
                      (''task_description'', description taskInfo)] context) of
        Inl e \<Rightarrow> RejectedEarly e
      | Inr workerInput \<Rightarrow>
          Awaiting workerInput
            (\<lambda>workerResponse. \<lparr>type = type taskInfo, description = description taskInfo,
                               result' = extractXml workerResponse ''response''\<rparr>))"

definition process ::
  "'s api \<Rightarrow> (nat \<Rightarrow> nat) \<Rightarrow> 's world \<Rightarrow> string \<Rightarrow> string \<Rightarrow> string \<Rightarrow> jsobject \<Rightarrow>
     ((error + orchestratorOutput) \<times> 's world) option" where
  "process api latency w orchestratorPrompt workerPrompt task context =
     (case formatPrompt orchestratorPrompt (spread [(''task'', task)] context) of
        Inl e \<Rightarrow> Some (Inl e, w)
      | Inr orchestratorInput \<Rightarrow>
          (case llmCall api w orchestratorInput of
             (Inl e, w1) \<Rightarrow> Some (Inl e, w1)
           | (Inr orchestratorResponse, w1) \<Rightarrow>
               (let analysis' = extractXml orchestratorResponse ''analysis'';
                    tasksXml = extractXml orchestratorResponse ''tasks'';
                    subTasks = parse_tasks tasksXml
                in case promise_all api latency (map (worker workerPrompt task context) subTasks) w1 of
                     None \<Rightarrow> None
                   | Some (Inl e, w2) \<Rightarrow> Some (Inl e, w2)
                   | Some (Inr workerResults, w2) \<Rightarrow>
                       Some (Inr \<lparr>analysis = analysis', worker_results = workerResults\<rparr>, w2))))"

section \<open>Reference definitions\<close>

text \<open>
  The definitions of this section are not taken from the source: they word what the
  results below compare the source with.
\<close>

text \<open>The first occurrence of a delimiter, compared case-insensitively: the input before
  it and the input after it.\<close>

fun find_ci :: "string \<Rightarrow> string \<Rightarrow> (string \<times> string) option" where
  "find_ci d [] = (if ci_prefix d [] then Some ([], []) else None)"
| "find_ci d (c # cs) =
     (if ci_prefix d (c # cs) then Some ([], drop (length d) (c # cs))
      else map_option (\<lambda>(b, a). (c # b, a)) (find_ci d cs))"

text \<open>The extractor as the specification words it: the trimmed text between the first
  opening delimiter and the first closing delimiter after it, the empty string when
  there is no such pair.\<close>

definition spec_extract :: "string \<Rightarrow> string \<Rightarrow> string" where
  "spec_extract doc tag =
     (case find_ci (''<'' @ tag @ ''>'') doc of
        None \<Rightarrow> []
      | Some (before_open, after_open) \<Rightarrow>
          (case find_ci (''</'' @ tag @ ''>'') after_open of
             None \<Rightarrow> []
           | Some (content, after_close) \<Rightarrow> trim content))"

text \<open>The same, with the first closing delimiter that leaves at least one character of
  content.\<close>

definition spec_extract_nonempty :: "string \<Rightarrow> string \<Rightarrow> string" where
  "spec_extract_nonempty doc tag =
     (case find_ci (''<'' @ tag @ ''>'') doc of
        None \<Rightarrow> []
      | Some (before_open, after_open) \<Rightarrow>
          (case after_open of
             [] \<Rightarrow> []
           | c # cs \<Rightarrow>
               (case find_ci (''</'' @ tag @ ''>'') cs of
                  None \<Rightarrow> []
                | Some (content, after_close) \<Rightarrow> trim (c # content))))"

text \<open>What every pending call of a schedule answers when all of them run to completion, in
  the order of completion: the index of the call, its prompt, and the error or the value
  of its promise.\<close>

fun answers ::
  "'s api \<Rightarrow> (nat \<times> string \<times> (string \<Rightarrow> 'a)) list \<Rightarrow> 's world \<Rightarrow> (nat \<times> string \<times> (error + 'a)) list" where
  "answers api [] w = []"
| "answers api ((i, prompt, k) # sched) w =
     (case settle api w prompt of (r, w') \<Rightarrow> (i, prompt, map_sum id k r) # answers api sched w')"

definition succeeded :: "nat \<times> string \<times> (error + 'a) \<Rightarrow> bool" where
  "succeeded a = (case a of (i, prompt, Inl e) \<Rightarrow> False | (i, prompt, Inr v) \<Rightarrow> True)"

text \<open>The calls \<open>parallel\<close> has pending, and the promises of the workers of \<open>process\<close>
  for a response of the orchestrator.\<close>

definition parallel_jobs :: "string \<Rightarrow> string list \<Rightarrow> (string \<times> (string \<Rightarrow> string)) list" where
  "parallel_jobs prompt inputs = map (\<lambda>input. (prompt @ ''\<newline>Input: '' @ input, \<lambda>t. t)) inputs"

definition worker_promises :: "string \<Rightarrow> string \<Rightarrow> jsobject \<Rightarrow> string \<Rightarrow> workerResult promise list" where
  "worker_promises workerPrompt task context orchestratorResponse =
     map (worker workerPrompt task context) (parse_tasks (extractXml orchestratorResponse ''tasks''))"

text \<open>The verdicts that are \<open>PASS\<close> up to the case of their letters: the sixteen spellings
  of \<open>PASS\<close> in upper and lower case. The four spellings with a sharp s in the place of
  the last two letters.\<close>

definition pass_spellings :: "string list" where
  "pass_spellings = [[a, b, c, d]. a \<leftarrow> ''pP'', b \<leftarrow> ''aA'', c \<leftarrow> ''sS'', d \<leftarrow> ''sS'']"

definition sharp_s_spellings :: "string list" where
  "sharp_s_spellings = [[a, b, CHR 0xDF]. a \<leftarrow> ''pP'', b \<leftarrow> ''aA'']"

text \<open>A name without braces, and a placeholder \<open>{n}\<close> with such a name, not empty, that
  stands somewhere in a text.\<close>

definition brace_free :: "string \<Rightarrow> bool" where
  "brace_free n \<longleftrightarrow> CHR ''{'' \<notin> set n \<and> CHR ''}'' \<notin> set n"

definition unresolved :: "string \<Rightarrow> string \<Rightarrow> bool" where
  "unresolved n s \<longleftrightarrow> n \<noteq> [] \<and> brace_free n \<and> (\<exists>u v. s = u @ ''{'' @ n @ ''}'' @ v)"




section \<open>Stub clients\<close>

text \<open>Concrete clients and worlds on which the results below are run.\<close>

definition world0 :: "nat world" where
  "world0 = \<lparr>client = 0, sent = []\<rparr>"

text \<open>Answers the prompt itself, followed by \<open>-A\<close> at the first call and \<open>-B\<close> afterwards.\<close>

definition suffix_stub :: "nat api" where
  "suffix_stub n prompt = (Response (Some (prompt @ (if n = 0 then ''-A'' else ''-B''))), Suc n)"

text \<open>Throws at the second answer it gives, and answers the prompt followed by \<open>!\<close>
  otherwise.\<close>

definition flaky_stub :: "nat api" where
  "flaky_stub n prompt = (if n = 1 then Throws ''boom'' else Response (Some (prompt @ ''!'')), Suc n)"

text \<open>Answers with a decomposition into two tasks first, throws at its second answer, and
  answers as a worker afterwards.\<close>

definition two_tasks :: string where
  "two_tasks = ''<analysis>two parts</analysis><tasks><task><type>A</type><description>a</description></task><task><type>B</type><description>b</description></task></tasks>''"

definition orchestrator_stub :: "nat api" where
  "orchestrator_stub n prompt =
     (if n = 0 then Response (Some two_tasks)
      else if n = 1 then Throws ''boom''
      else Response (Some (''<response>done: '' @ prompt @ ''</response>'')), Suc n)"

text \<open>Selects \<open>BILLING\<close> at its first answer, and answers the prompt after \<open>handled: \<close>
  afterwards.\<close>

definition selector_reply :: string where
  "selector_reply = ''<reasoning>An invoice.</reasoning><selection>BILLING</selection>''"

definition selector_stub :: "nat api" where
  "selector_stub n prompt =
     (if n = 0 then Response (Some selector_reply) else Response (Some (''handled: '' @ prompt)), Suc n)"

text \<open>Selects \<open>constructor\<close> at its first answer, and answers the prompt after \<open>handled: \<close>
  afterwards.\<close>

definition inherited_stub :: "nat api" where
  "inherited_stub n prompt =
     (if n = 0 then Response (Some ''<reasoning>None fits.</reasoning><selection>constructor</selection>'')
      else Response (Some (''handled: '' @ prompt)), Suc n)"

definition support_routes :: jsobject where
  "support_routes = [(''billing'', ''P1''), (''technical'', ''P2'')]"

text \<open>A decomposition whose second block has no description, between two well-formed
  blocks, and an orchestrator that answers with it.\<close>

definition three_blocks :: string where
  "three_blocks = ''<task><type>A</type><description>a</description></task><task><type>M</type></task><task><type>B</type><description>b</description></task>''"

definition merging_stub :: "nat api" where
  "merging_stub n prompt =
     (if n = 0 then Response (Some (''<analysis>plan</analysis><tasks>'' @ three_blocks @ ''</tasks>''))
      else Response (Some (''<response>done</response>'')), Suc n)"

text \<open>A generator and evaluator in one: a first candidate, the verdict \<open>FAIL\<close>, a second
  candidate, the verdict \<open>Pass\<close>; the worlds before and after the second evaluation. A
  client that answers every prompt alike, with the verdict \<open>PASSED\<close>.\<close>

definition reviewer_stub :: "nat api" where
  "reviewer_stub n prompt =
     (Response (Some (if n = 0 then ''<thoughts>t0</thoughts><response>r0</response>''
                      else if n = 1 then ''<evaluation>FAIL</evaluation><feedback>fb</feedback>''
                      else if n = 2 then ''<thoughts>t1</thoughts><response>r1</response>''
                      else ''<evaluation>Pass</evaluation><feedback>ok</feedback>'')), Suc n)"

definition world3 :: "nat world" where
  "world3 = \<lparr>client = 3,
              sent = [''G\<newline>Task: T'', ''E\<newline>Original task: T\<newline>Content to evaluate: r0'',
                      ''G\<newline>Previous attempts:\<newline>- r0\<newline>\<newline>Feedback: fb\<newline>Task: T'']\<rparr>"

definition world4 :: "nat world" where
  "world4 = world3\<lparr>client := 4,
              sent := sent world3 @ [''E\<newline>Original task: T\<newline>Content to evaluate: r1'']\<rparr>"

definition stubborn_reply :: string where
  "stubborn_reply =
     ''<thoughts>t</thoughts><response>r</response><evaluation>PASSED</evaluation><feedback>f</feedback>''"

definition stubborn_stub :: "unit api" where
  "stubborn_stub u prompt = (Response (Some stubborn_reply), u)"

text \<open>Clients that answer every prompt alike, with a candidate and the verdict \<open>pass\<close>, and
  with a candidate and the verdict \<open>pa\<close> followed by a sharp s.\<close>

definition approving_stub :: "nat api" where
  "approving_stub n prompt =
     (Response (Some ''<thoughts>t</thoughts><response>r</response><evaluation>pass</evaluation><feedback>f</feedback>''),
      Suc n)"

definition sharp_s_stub :: "nat api" where
  "sharp_s_stub n prompt =
     (Response (Some (''<thoughts>t</thoughts><response>r</response><evaluation>pa'' @ [CHR 0xDF]
                      @ ''</evaluation><feedback>f</feedback>'')),
      Suc n)"

text \<open>Answers every prompt with the decomposition into two tasks.\<close>

definition planner_stub :: "nat api" where
  "planner_stub n prompt = (Response (Some two_tasks), Suc n)"

section \<open>chain: results\<close>

text \<open>C10: the chain of no prompts returns its input and leaves the world as it was: no
  call is made.\<close>

theorem chain_empty: "chain api w input [] = (Inr input, w)"
  by simp

lemma sent_llmCall: "llmCall api w p = (r, w') \<Longrightarrow> sent w' = sent w @ [p]"
  by (auto simp: llmCall_def settle_def issue_def split: prod.splits)



text \<open>Conversely, calls that answer in this way make the chain return the last answer.\<close>

lemma chain_threads_converse:
  assumes "length rs = length prompts" and "length ws = length prompts"
    and "\<forall>i<length prompts.
           llmCall api ((w # ws) ! i) (prompts ! i @ ''\<newline>Input: '' @ (input # rs) ! i)
             = (Inr (rs ! i), ws ! i)"
  shows "chain api w input prompts = (Inr (last (input # rs)), last (w # ws))"
  using assms
proof (induction prompts arbitrary: w input rs ws)
  case Nil
  then show ?case by simp
next
  case (Cons p ps)
  from Cons.prems(1,2) obtain r rs' w1 ws' where rs: "rs = r # rs'" and ws: "ws = w1 # ws'"
    and len: "length rs' = length ps" "length ws' = length ps"
    by (cases rs; cases ws) auto
  from Cons.prems(3) have first: "llmCall api w (p @ ''\<newline>Input: '' @ input) = (Inr r, w1)"
    unfolding rs ws by (auto dest: spec [of _ 0])
  have rest: "\<forall>i<length ps.
      llmCall api ((w1 # ws') ! i) (ps ! i @ ''\<newline>Input: '' @ (r # rs') ! i) = (Inr (rs' ! i), ws' ! i)"
  proof (intro allI impI)
    fix i assume "i < length ps"
    then have "Suc i < length (p # ps)" by simp
    with Cons.prems(3) show "llmCall api ((w1 # ws') ! i) (ps ! i @ ''\<newline>Input: '' @ (r # rs') ! i)
        = (Inr (rs' ! i), ws' ! i)"
      unfolding rs ws by (auto dest: spec [of _ "Suc i"])
  qed
  from Cons.IH [OF len rest] first show ?case by (simp add: rs ws)
qed

section \<open>extractXml: results\<close>

declare ci_prefix.simps [simp del]

text \<open>The delimiters are compared case-insensitively, and \<open>find_ci\<close> finds the first
  occurrence of one.\<close>

lemma ci_prefix_iff: "ci_prefix d s \<longleftrightarrow> prefix (map canonicalize d) (map canonicalize s)"
  by (induction d s rule: ci_prefix.induct) (simp_all add: ci_prefix.simps)

lemma find_ci_first:
  "find_ci d s = Some (b, a) \<Longrightarrow>
     s = b @ take (length d) (drop (length b) s) @ a \<and> ci_prefix d (drop (length b) s) \<and>
     (\<forall>i<length b. \<not> ci_prefix d (drop i s))"
proof (induction s arbitrary: b)
  case Nil
  then show ?case by (auto split: if_splits)
next
  case (Cons c cs)
  show ?case
  proof (cases "ci_prefix d (c # cs)")
    case True
    with Cons.prems show ?thesis by auto
  next
    case False
    with Cons.prems obtain b' where b: "b = c # b'" and f: "find_ci d cs = Some (b', a)" by auto
    from Cons.IH [OF f] have ih: "cs = b' @ take (length d) (drop (length b') cs) @ a"
      "ci_prefix d (drop (length b') cs)" "\<forall>i<length b'. \<not> ci_prefix d (drop i cs)" by blast+
    have "\<forall>i<length b. \<not> ci_prefix d (drop i (c # cs))"
    proof (intro allI impI)
      fix i assume "i < length b"
      then show "\<not> ci_prefix d (drop i (c # cs))" using False ih(3) b by (cases i) auto
    qed
    moreover have "c # cs = b @ take (length d) (drop (length b) (c # cs)) @ a"
      using ih(1) b by simp
    ultimately show ?thesis using ih(2) b by simp
  qed
qed

lemma find_ci_none: "find_ci d s = None \<Longrightarrow> \<not> ci_prefix d (drop i s)"
proof (induction s arbitrary: i)
  case Nil
  then show ?case by (auto split: if_splits)
next
  case (Cons c cs)
  then show ?case by (cases i) (auto split: if_splits)
qed

text \<open>A tag in another case and content over two lines; a tag that is not there; a pair
  with nothing in between.\<close>

lemma extractXml_examples:
  "extractXml ''Some text <Reasoning>  first line\<newline>second line </REASONING> more'' ''reasoning''
     = ''first line\<newline>second line''"
  "extractXml ''<other>Some other content</other>'' ''data'' = []"
  "extractXml ''<a></a>'' ''a'' = []"
  by code_simp+

lemma lazy_star_lit_ci: "lazy_star (lit_ci d accept) s = find_ci d s"
  by (induction s) (auto simp: lit_ci_def accept_def)

lemma lazy_star_succeeds:
  "lazy_star k s \<noteq> None \<longleftrightarrow> (\<exists>n\<le>length s. k (drop n s) \<noteq> None)"
proof (induction s)
  case Nil
  then show ?case by simp
next
  case (Cons c cs)
  show ?case
  proof (cases "k (c # cs)")
    case (Some r)
    then have "k (drop 0 (c # cs)) \<noteq> None" by simp
    then have "\<exists>n\<le>length (c # cs). k (drop n (c # cs)) \<noteq> None" by blast
    with Some show ?thesis by simp
  next
    case None
    have "(\<exists>n\<le>length (c # cs). k (drop n (c # cs)) \<noteq> None) \<longleftrightarrow> (\<exists>n\<le>length cs. k (drop n cs) \<noteq> None)"
    proof
      assume "\<exists>n\<le>length (c # cs). k (drop n (c # cs)) \<noteq> None"
      then obtain n where n: "n \<le> length (c # cs)" "k (drop n (c # cs)) \<noteq> None" by blast
      with None obtain n' where "n = Suc n'" by (cases n) auto
      with n show "\<exists>n\<le>length cs. k (drop n cs) \<noteq> None" by auto
    next
      assume "\<exists>n\<le>length cs. k (drop n cs) \<noteq> None"
      then obtain n where "n \<le> length cs" "k (drop n cs) \<noteq> None" by blast
      then have "Suc n \<le> length (c # cs)" "k (drop (Suc n) (c # cs)) \<noteq> None" by auto
      then show "\<exists>n\<le>length (c # cs). k (drop n (c # cs)) \<noteq> None" by blast
    qed
    with None Cons.IH show ?thesis by simp
  qed
qed

lemma lazy_plus_succeeds:
  "lazy_plus k s \<noteq> None \<longleftrightarrow> (\<exists>n. n < length s \<and> k (drop (Suc n) s) \<noteq> None)"
proof (cases s)
  case Nil
  then show ?thesis by (simp add: lazy_plus_def)
next
  case (Cons c cs)
  have "lazy_plus k (c # cs) \<noteq> None \<longleftrightarrow> lazy_star k cs \<noteq> None"
    by (simp add: lazy_plus_def)
  also have "\<dots> \<longleftrightarrow> (\<exists>n\<le>length cs. k (drop n cs) \<noteq> None)"
    by (rule lazy_star_succeeds)
  also have "\<dots> \<longleftrightarrow> (\<exists>n. n < length (c # cs) \<and> k (drop (Suc n) (c # cs)) \<noteq> None)"
    by (simp add: less_Suc_eq_le)
  finally show ?thesis using Cons by simp
qed

lemma lazy_plus_drop:
  assumes "lazy_plus k (drop j s) \<noteq> None"
  shows "lazy_plus k s \<noteq> None"
proof -
  from assms obtain n where n: "n < length (drop j s)" "k (drop (Suc n) (drop j s)) \<noteq> None"
    unfolding lazy_plus_succeeds by blast
  then have "n + j < length s" "k (drop (Suc (n + j)) s) \<noteq> None"
    by (auto simp: add.commute)
  then show ?thesis unfolding lazy_plus_succeeds by blast
qed

lemma find_ci_after:
  "find_ci d s = Some (b, a) \<Longrightarrow> a = drop (length b + length d) s"
  by (induction s arbitrary: b) (auto split: if_splits)

lemma xml_regex_apply:
  "xml_regex tag s =
     (if ci_prefix (''<'' @ tag @ ''>'') s
      then lazy_plus (lit_ci (''</'' @ tag @ ''>'') accept) (drop (length (''<'' @ tag @ ''>'')) s)
      else None)"
  by (simp add: xml_regex_def lit_ci_def)

lemma regex_search_xml:
  "regex_search (xml_regex tag) doc =
     (case find_ci (''<'' @ tag @ ''>'') doc of
        None \<Rightarrow> None
      | Some (b, after_open) \<Rightarrow> lazy_plus (lit_ci (''</'' @ tag @ ''>'') accept) after_open)"
proof (induction doc)
  case Nil
  then show ?case by (simp add: xml_regex_apply [of tag "[]"] lazy_plus_def ci_prefix.simps)
next
  case (Cons c cs)
  let ?open = "''<'' @ tag @ ''>''"
  let ?K = "lit_ci (''</'' @ tag @ ''>'') accept"
  show ?case
  proof (cases "ci_prefix ?open (c # cs)")
    case False
    then show ?thesis using Cons.IH
      by (auto simp: xml_regex_apply [of tag "c # cs"] split: option.splits)
  next
    case True
    show ?thesis
    proof (cases "lazy_plus ?K (drop (length ?open) (c # cs))")
      case (Some r)
      with True show ?thesis by (simp add: xml_regex_apply [of tag "c # cs"])
    next
      case None
      have "regex_search (xml_regex tag) cs = None"
      proof (cases "find_ci ?open cs")
        case None
        with Cons.IH show ?thesis by simp
      next
        case (Some ba)
        obtain b a where ba: "ba = (b, a)" by (cases ba)
        with Some have "find_ci ?open cs = Some (b, a)" by simp
        then have "a = drop (length b + length ?open) cs" by (rule find_ci_after)
        then have a': "a = drop (Suc (length b)) (drop (length ?open) (c # cs))"
          by (simp add: add.commute)
        have "lazy_plus ?K a = None"
        proof (rule ccontr)
          assume "lazy_plus ?K a \<noteq> None"
          then have "lazy_plus ?K (drop (Suc (length b)) (drop (length ?open) (c # cs))) \<noteq> None"
            unfolding a' .
          then have "lazy_plus ?K (drop (length ?open) (c # cs)) \<noteq> None"
            by (rule lazy_plus_drop)
          with None show False by blast
        qed
        with Cons.IH Some ba show ?thesis by simp
      qed
      with True None show ?thesis by (simp add: xml_regex_apply [of tag "c # cs"])
    qed
  qed
qed

text \<open>
  What \<open>extractXml\<close> computes, for every text and tag: the trimmed text between the first
  opening delimiter and the first closing delimiter that starts at least one character
  after it, both compared case-insensitively, the content running over line breaks, and
  the empty string when there is no such pair. This is what the specification asks for
  unless a closing delimiter follows the first opening delimiter at once.
\<close>

lemma extractXml_first_pair:
  "extractXml doc tag = spec_extract_nonempty doc tag"
  by (auto simp: extractXml_def spec_extract_nonempty_def regex_search_xml lazy_plus_def
        lazy_star_lit_ci split: option.splits list.splits)

lemma extractXml_agrees:
  assumes "\<forall>b after_open. find_ci (''<'' @ tag @ ''>'') doc = Some (b, after_open) \<longrightarrow>
             \<not> ci_prefix (''</'' @ tag @ ''>'') after_open"
  shows "extractXml doc tag = spec_extract doc tag"
proof (cases "find_ci (''<'' @ tag @ ''>'') doc")
  case None
  then show ?thesis by (simp add: extractXml_first_pair spec_extract_nonempty_def spec_extract_def)
next
  case (Some ba)
  obtain b after_open where ba: "ba = (b, after_open)" by (cases ba)
  with Some assms have n: "\<not> ci_prefix (''</'' @ tag @ ''>'') after_open" by simp
  show ?thesis
  proof (cases after_open)
    case Nil
    with Some ba n show ?thesis
      by (simp add: extractXml_first_pair spec_extract_nonempty_def spec_extract_def)
  next
    case (Cons c cs)
    with Some ba n show ?thesis
      by (simp add: extractXml_first_pair spec_extract_nonempty_def spec_extract_def
            split: option.splits)
  qed
qed

text \<open>
  C1 on a text whose first pair of delimiters has nothing in between: the content between
  the first opening delimiter and the first closing delimiter after it is empty, so the
  specification asks for the empty string. The pattern \<open>(.+?)\<close> takes at least one character,
  so the match runs on to a later closing delimiter, and \<open>extractXml\<close> returns a text that
  holds the first closing delimiter.
\<close>

theorem extractXml_runs_past_empty_pair:
  "extractXml ''<a></a>x</a>'' ''a'' = ''</a>x'' \<and>
   spec_extract ''<a></a>x</a>'' ''a'' = [] \<and>
   extractXml ''<response></response> and <response>ok</response>'' ''response''
     = ''</response> and <response>ok'' \<and>
   spec_extract ''<response></response> and <response>ok</response>'' ''response'' = []"
  by code_simp

section \<open>Promise.all, parallel and the workers: results\<close>

declare settle_all.simps [simp del]

lemma succeeded_simps:
  "succeeded (i, p, Inr v) \<longleftrightarrow> True" "succeeded (i, p, Inl e) \<longleftrightarrow> False"
  by (simp_all add: succeeded_def)

lemma those_filled: "None \<notin> set vs \<Longrightarrow> those vs = Some (map the vs)"
proof (induction vs)
  case Nil
  then show ?case by simp
next
  case (Cons a vs)
  then obtain y where "a = Some y" by (cases a) auto
  with Cons show ?case by simp
qed

lemma those_missing: "None \<in> set vs \<Longrightarrow> those vs = None"
  by (induction vs) (auto split: option.splits)

lemma settle_all_done: "those vs = Some rs \<Longrightarrow> settle_all api sched vs w = Some (Inr rs, w)"
  by (subst settle_all.simps) simp

lemma settle_all_step:
  "those vs = None \<Longrightarrow>
   settle_all api ((i, p, k) # rest) vs w =
     (case settle api w p of
        (Inl e, w') \<Rightarrow> Some (Inl e, w')
      | (Inr t, w') \<Rightarrow> settle_all api rest (vs[i := Some (k t)]) w')"
  by (subst settle_all.simps) simp

lemma sent_settle: "settle api w p = (r, w') \<Longrightarrow> sent w' = sent w"
  by (auto simp: settle_def split: prod.splits)

lemma sent_foldl_issue: "sent (foldl issue w ps) = sent w @ ps"
  by (induction ps arbitrary: w) (simp_all add: issue_def)

lemma settle_all_fulfils:
  assumes "distinct (map fst sched)"
    and "\<forall>i<length vs. vs ! i = None \<longleftrightarrow> i \<in> fst ` set sched"
    and "fst ` set sched \<subseteq> {..<length vs}"
    and "list_all succeeded (answers api sched w)"
  shows "\<exists>rs w'. settle_all api sched vs w = Some (Inr rs, w') \<and> sent w' = sent w \<and>
           length rs = length vs \<and>
           (\<forall>(i, p, r) \<in> set (answers api sched w). r = Inr (rs ! i)) \<and>
           (\<forall>i<length vs. \<forall>v. vs ! i = Some v \<longrightarrow> rs ! i = v)"
  using assms
proof (induction sched arbitrary: vs w)
  case Nil
  then have "None \<notin> set vs" by (auto simp: in_set_conv_nth)
  then have th: "those vs = Some (map the vs)" by (rule those_filled)
  show ?case
    by (rule exI [of _ "map the vs"], rule exI [of _ w]) (simp add: settle_all_done [OF th])
next
  case (Cons job rest)
  obtain i p k where job: "job = (i, p, k)" by (cases job)
  from Cons.prems job have i: "i < length vs" "vs ! i = None" by auto
  then have "None \<in> set vs" by (metis nth_mem)
  then have th: "those vs = None" by (rule those_missing)
  obtain r w1 where st: "settle api w p = (r, w1)" by (cases "settle api w p")
  with Cons.prems(4) job obtain t where r: "r = Inr t"
    by (cases r) (auto simp: succeeded_simps)
  let ?vs = "vs[i := Some (k t)]"
  have run: "settle_all api (job # rest) vs w = settle_all api rest ?vs w1"
    using th st r job by (simp add: settle_all_step)
  have d: "distinct (map fst rest)" and inotin: "i \<notin> fst ` set rest"
    using Cons.prems(1) job by auto
  have inv: "\<forall>j<length ?vs. ?vs ! j = None \<longleftrightarrow> j \<in> fst ` set rest"
  proof (intro allI impI)
    fix j assume j: "j < length ?vs"
    show "?vs ! j = None \<longleftrightarrow> j \<in> fst ` set rest"
    proof (cases "j = i")
      case True
      with i inotin show ?thesis by simp
    next
      case False
      with j Cons.prems(2) job show ?thesis by auto
    qed
  qed
  have sub: "fst ` set rest \<subseteq> {..<length ?vs}" using Cons.prems(3) by auto
  have ok: "list_all succeeded (answers api rest w1)"
    using Cons.prems(4) job st by simp
  from Cons.IH [OF d inv sub ok] obtain rs w' where
    res: "settle_all api rest ?vs w1 = Some (Inr rs, w')" and
    snt: "sent w' = sent w1" and len: "length rs = length ?vs" and
    ans: "\<forall>(j, q, x) \<in> set (answers api rest w1). x = Inr (rs ! j)" and
    old: "\<forall>j<length ?vs. \<forall>v. ?vs ! j = Some v \<longrightarrow> rs ! j = v"
    by blast
  have rsi: "rs ! i = k t" using old i by simp
  have ans': "\<forall>(j, q, x) \<in> set (answers api (job # rest) w). x = Inr (rs ! j)"
    using ans rsi job st r by simp
  have old': "\<forall>j<length vs. \<forall>v. vs ! j = Some v \<longrightarrow> rs ! j = v"
  proof (intro allI impI)
    fix j v assume j: "j < length vs" and v: "vs ! j = Some v"
    with i have "j \<noteq> i" by auto
    with j v old show "rs ! j = v" by simp
  qed
  have "sent w' = sent w" using snt sent_settle [OF st] by simp
  with run res len ans' old' show ?case by auto
qed

lemma settle_all_rejects:
  assumes "distinct (map fst sched)"
    and "\<forall>i<length vs. vs ! i = None \<longleftrightarrow> i \<in> fst ` set sched"
    and "fst ` set sched \<subseteq> {..<length vs}"
    and "\<not> list_all succeeded (answers api sched w)"
  shows "\<exists>e w' as1 i p as2. settle_all api sched vs w = Some (Inl e, w') \<and> sent w' = sent w \<and>
           answers api sched w = as1 @ (i, p, Inl e) # as2 \<and> list_all succeeded as1"
  using assms
proof (induction sched arbitrary: vs w)
  case Nil
  then show ?case by simp
next
  case (Cons job rest)
  obtain i p k where job: "job = (i, p, k)" by (cases job)
  from Cons.prems job have i: "i < length vs" "vs ! i = None" by auto
  then have "None \<in> set vs" by (metis nth_mem)
  then have th: "those vs = None" by (rule those_missing)
  obtain r w1 where st: "settle api w p = (r, w1)" by (cases "settle api w p")
  show ?case
  proof (cases r)
    case (Inl e)
    have "settle_all api (job # rest) vs w = Some (Inl e, w1)"
      using th st Inl job by (simp add: settle_all_step)
    moreover have "sent w1 = sent w" using st by (rule sent_settle)
    moreover have "answers api (job # rest) w = [] @ (i, p, Inl e) # answers api rest w1"
      using job st Inl by simp
    ultimately show ?thesis
      by (intro exI [of _ e] exI [of _ w1] exI [of _ "[]"] exI [of _ i] exI [of _ p]
            exI [of _ "answers api rest w1"]) simp
  next
    case (Inr t)
    let ?vs = "vs[i := Some (k t)]"
    have run: "settle_all api (job # rest) vs w = settle_all api rest ?vs w1"
      using th st Inr job by (simp add: settle_all_step)
    have d: "distinct (map fst rest)" and inotin: "i \<notin> fst ` set rest"
      using Cons.prems(1) job by auto
    have inv: "\<forall>j<length ?vs. ?vs ! j = None \<longleftrightarrow> j \<in> fst ` set rest"
    proof (intro allI impI)
      fix j assume j: "j < length ?vs"
      show "?vs ! j = None \<longleftrightarrow> j \<in> fst ` set rest"
      proof (cases "j = i")
        case True
        with i inotin show ?thesis by simp
      next
        case False
        with j Cons.prems(2) job show ?thesis by auto
      qed
    qed
    have sub: "fst ` set rest \<subseteq> {..<length ?vs}" using Cons.prems(3) by auto
    have bad: "\<not> list_all succeeded (answers api rest w1)"
      using Cons.prems(4) job st Inr by (simp add: succeeded_simps)
    from Cons.IH [OF d inv sub bad] obtain e w' as1 j q as2 where
      res: "settle_all api rest ?vs w1 = Some (Inl e, w')" and
      snt: "sent w' = sent w1" and
      dec: "answers api rest w1 = as1 @ (j, q, Inl e) # as2" and ok: "list_all succeeded as1"
      by blast
    have "answers api (job # rest) w = ((i, p, Inr (k t)) # as1) @ (j, q, Inl e) # as2"
      using job st Inr dec by simp
    moreover have "list_all succeeded ((i, p, Inr (k t)) # as1)"
      using ok by (simp add: succeeded_simps)
    moreover have "sent w' = sent w" using snt sent_settle [OF st] by simp
    ultimately show ?thesis using run res by metis
  qed
qed

lemma set_completion_order: "set (completion_order latency jobs) = set (enumerate 0 jobs)"
  by (simp add: completion_order_def)

lemma fst_completion_order: "fst ` set (completion_order latency jobs) = {..<length jobs}"
proof -
  have "fst ` set (enumerate 0 jobs) = set (map fst (enumerate 0 jobs))" by (simp only: set_map)
  also have "\<dots> = {..<length jobs}" by (simp add: lessThan_atLeast0)
  finally show ?thesis by (simp only: set_completion_order)
qed

lemma distinct_completion_order: "distinct (map fst (completion_order latency jobs))"
proof -
  have "distinct (map fst (enumerate 0 jobs))" by simp
  then have inj: "inj_on fst (set (enumerate 0 jobs))"
    by (rule distinct_map [THEN iffD1, THEN conjunct2])
  have "distinct (enumerate 0 jobs)" by (simp add: distinct_enumerate)
  then have "distinct (completion_order latency jobs)" by (simp add: completion_order_def)
  with inj show ?thesis by (simp only: distinct_map set_completion_order simp_thms)
qed

lemma pending_simps:
  "pending [] = []"
  "pending (RejectedEarly e # ps) = pending ps"
  "pending (Awaiting p k # ps) = (p, k) # pending ps"
  by (simp_all add: pending_def)

lemma rejected_simps:
  "rejected [] = []"
  "rejected (RejectedEarly e # ps) = e # rejected ps"
  "rejected (Awaiting p k # ps) = rejected ps"
  by (simp_all add: rejected_def)

lemma length_pending: "rejected ps = [] \<Longrightarrow> length (pending ps) = length ps"
proof (induction ps)
  case Nil
  then show ?case by (simp add: pending_simps)
next
  case (Cons a ps)
  then show ?case by (cases a) (simp_all add: pending_simps rejected_simps)
qed

lemma promise_all_fulfils:
  assumes "rejected ps = []"
    and "list_all succeeded
           (answers api (completion_order latency (pending ps)) (foldl issue w (map fst (pending ps))))"
  shows "\<exists>rs w'. promise_all api latency ps w = Some (Inr rs, w') \<and>
           sent w' = sent w @ map fst (pending ps) \<and> length rs = length ps \<and>
           (\<forall>(i, p, r) \<in> set (answers api (completion_order latency (pending ps))
                                  (foldl issue w (map fst (pending ps)))). r = Inr (rs ! i))"
proof -
  let ?sched = "completion_order latency (pending ps)"
  let ?vs = "replicate (length ps) None"
  let ?w1 = "foldl issue w (map fst (pending ps))"
  have len: "length (pending ps) = length ps" using assms(1) by (rule length_pending)
  have inv: "\<forall>i<length ?vs. ?vs ! i = None \<longleftrightarrow> i \<in> fst ` set ?sched"
    by (simp add: fst_completion_order len)
  have sub: "fst ` set ?sched \<subseteq> {..<length ?vs}"
    by (simp add: fst_completion_order len)
  from settle_all_fulfils [OF distinct_completion_order inv sub assms(2)] show ?thesis
  proof (elim exE conjE)
    fix rs w'
    assume run: "settle_all api ?sched ?vs ?w1 = Some (Inr rs, w')"
      and snt: "sent w' = sent ?w1"
      and len': "length rs = length ?vs"
      and ans: "\<forall>(i, p, r) \<in> set (answers api ?sched ?w1). r = Inr (rs ! i)"
    have "promise_all api latency ps w = Some (Inr rs, w')"
      using run assms(1) by (simp add: promise_all_def)
    moreover have "sent w' = sent w @ map fst (pending ps)"
      using snt by (simp only: sent_foldl_issue)
    moreover have "length rs = length ps" using len' by simp
    ultimately show ?thesis using ans by blast
  qed
qed

lemma promise_all_rejects:
  assumes "rejected ps = []"
    and "\<not> list_all succeeded
           (answers api (completion_order latency (pending ps)) (foldl issue w (map fst (pending ps))))"
  shows "\<exists>e w' as1 i p as2. promise_all api latency ps w = Some (Inl e, w') \<and>
           sent w' = sent w @ map fst (pending ps) \<and>
           answers api (completion_order latency (pending ps)) (foldl issue w (map fst (pending ps)))
             = as1 @ (i, p, Inl e) # as2 \<and> list_all succeeded as1"
proof -
  let ?sched = "completion_order latency (pending ps)"
  let ?vs = "replicate (length ps) None"
  let ?w1 = "foldl issue w (map fst (pending ps))"
  have len: "length (pending ps) = length ps" using assms(1) by (rule length_pending)
  have inv: "\<forall>i<length ?vs. ?vs ! i = None \<longleftrightarrow> i \<in> fst ` set ?sched"
    by (simp add: fst_completion_order len)
  have sub: "fst ` set ?sched \<subseteq> {..<length ?vs}"
    by (simp add: fst_completion_order len)
  from settle_all_rejects [OF distinct_completion_order inv sub assms(2)] show ?thesis
  proof (elim exE conjE)
    fix e w' as1 i p as2
    assume run: "settle_all api ?sched ?vs ?w1 = Some (Inl e, w')"
      and snt: "sent w' = sent ?w1"
      and dec: "answers api ?sched ?w1 = as1 @ (i, p, Inl e) # as2"
      and ok: "list_all succeeded as1"
    have "promise_all api latency ps w = Some (Inl e, w')"
      using run assms(1) by (simp add: promise_all_def)
    moreover have "sent w' = sent w @ map fst (pending ps)"
      using snt by (simp only: sent_foldl_issue)
    ultimately show ?thesis using dec ok by blast
  qed
qed

lemma promise_all_rejected_early:
  assumes "rejected ps = e # es"
  shows "promise_all api latency ps w = Some (Inl e, foldl issue w (map fst (pending ps)))"
  using assms by (simp add: promise_all_def)

lemma promise_all_total: "\<exists>r w'. promise_all api latency ps w = Some (r, w')"
proof (cases "rejected ps")
  case (Cons e es)
  then show ?thesis by (simp add: promise_all_rejected_early)
next
  case Nil
  show ?thesis
  proof (cases "list_all succeeded
           (answers api (completion_order latency (pending ps)) (foldl issue w (map fst (pending ps))))")
    case True
    from promise_all_fulfils [OF Nil True] show ?thesis by blast
  next
    case False
    from promise_all_rejects [OF Nil False] show ?thesis by blast
  qed
qed

lemma promise_all_fails:
  assumes "\<not> list_all succeeded
           (answers api (completion_order latency (pending ps)) (foldl issue w (map fst (pending ps))))"
  shows "\<exists>e w'. promise_all api latency ps w = Some (Inl e, w')"
proof (cases "rejected ps")
  case (Cons e es)
  then show ?thesis by (simp add: promise_all_rejected_early)
next
  case Nil
  from promise_all_rejects [OF Nil assms] show ?thesis by blast
qed

lemma promise_all_value:
  assumes "promise_all api latency ps w = Some (Inr rs, w')"
  shows "rejected ps = [] \<and> length rs = length ps \<and>
         list_all succeeded
           (answers api (completion_order latency (pending ps)) (foldl issue w (map fst (pending ps))))"
proof -
  have r: "rejected ps = []"
  proof (cases "rejected ps")
    case (Cons e es)
    with assms show ?thesis by (simp add: promise_all_rejected_early)
  qed simp
  have ok: "list_all succeeded
           (answers api (completion_order latency (pending ps)) (foldl issue w (map fst (pending ps))))"
  proof (rule ccontr)
    assume "\<not> ?thesis"
    from promise_all_fails [OF this] assms show False by auto
  qed
  from promise_all_fulfils [OF r ok] assms have "length rs = length ps" by auto
  with r ok show ?thesis by blast
qed

lemma pending_parallel:
  "pending (map (\<lambda>input. Awaiting (prompt @ ''\<newline>Input: '' @ input) (\<lambda>t. t)) inputs)
     = parallel_jobs prompt inputs"
  by (induction inputs) (simp_all add: pending_simps parallel_jobs_def)

lemma rejected_parallel:
  "rejected (map (\<lambda>input. Awaiting (prompt @ ''\<newline>Input: '' @ input) (\<lambda>t. t)) inputs) = []"
  by (induction inputs) (simp_all add: rejected_simps)

lemma answers_cover:
  "(i, p, k) \<in> set sched \<Longrightarrow> \<exists>r. (i, p, r) \<in> set (answers api sched w)"
proof (induction sched arbitrary: w)
  case Nil
  then show ?case by simp
next
  case (Cons job rest)
  obtain j q k' where job: "job = (j, q, k')" by (cases job)
  obtain r w1 where st: "settle api w q = (r, w1)" by (cases "settle api w q")
  show ?case
  proof (cases "(i, p, k) = job")
    case True
    with job st show ?thesis by auto
  next
    case False
    with Cons.prems have "(i, p, k) \<in> set rest" by simp
    from Cons.IH [OF this, of w1] job st show ?thesis by auto
  qed
qed

text \<open>
  C6: \<open>parallel\<close> sends one request for each input, \<open>prompt\<close>, the line \<open>Input: \<close> and the
  input, in the order of the inputs. Whatever the order \<open>latency\<close> in which the calls are
  answered, when every call succeeds the result has the length of the inputs and its
  element \<open>i\<close> is the answer to the call for \<open>inputs ! i\<close>.
\<close>

theorem parallel_index_aligned:
  assumes "list_all succeeded
             (answers api (completion_order latency (parallel_jobs prompt inputs))
                (foldl issue w (map fst (parallel_jobs prompt inputs))))"
  shows "\<exists>rs w'. parallel api latency w prompt inputs = Some (Inr rs, w') \<and>
           length rs = length inputs \<and>
           sent w' = sent w @ map (\<lambda>input. prompt @ ''\<newline>Input: '' @ input) inputs \<and>
           (\<forall>i<length inputs.
              (i, prompt @ ''\<newline>Input: '' @ inputs ! i, Inr (rs ! i))
                \<in> set (answers api (completion_order latency (parallel_jobs prompt inputs))
                         (foldl issue w (map fst (parallel_jobs prompt inputs)))))"
proof -
  let ?ps = "map (\<lambda>input. Awaiting (prompt @ ''\<newline>Input: '' @ input) (\<lambda>t. t)) inputs"
  let ?jobs = "parallel_jobs prompt inputs"
  let ?as = "answers api (completion_order latency ?jobs) (foldl issue w (map fst ?jobs))"
  have ok: "list_all succeeded
      (answers api (completion_order latency (pending ?ps)) (foldl issue w (map fst (pending ?ps))))"
    using assms by (simp only: pending_parallel)
  from promise_all_fulfils [OF rejected_parallel ok] show ?thesis
  proof (elim exE conjE)
    fix rs w'
    assume run: "promise_all api latency ?ps w = Some (Inr rs, w')"
      and snt: "sent w' = sent w @ map fst (pending ?ps)"
      and len: "length rs = length ?ps"
      and ans: "\<forall>(i, p, r) \<in> set (answers api (completion_order latency (pending ?ps))
                  (foldl issue w (map fst (pending ?ps)))). r = Inr (rs ! i)"
    have ans': "\<forall>(i, p, r) \<in> set ?as. r = Inr (rs ! i)"
      using ans by (simp only: pending_parallel)
    have aligned: "\<forall>i<length inputs. (i, prompt @ ''\<newline>Input: '' @ inputs ! i, Inr (rs ! i)) \<in> set ?as"
    proof (intro allI impI)
      fix i assume i: "i < length inputs"
      then have "(i, ?jobs ! i) \<in> set (enumerate 0 ?jobs)"
        by (simp add: in_set_enumerate_eq parallel_jobs_def)
      then have "(i, prompt @ ''\<newline>Input: '' @ inputs ! i, (\<lambda>t. t)) \<in> set (completion_order latency ?jobs)"
        using i by (simp add: set_completion_order parallel_jobs_def)
      from answers_cover [OF this] obtain r where
        r: "(i, prompt @ ''\<newline>Input: '' @ inputs ! i, r) \<in> set ?as" by blast
      with ans' have "r = Inr (rs ! i)" by blast
      with r show "(i, prompt @ ''\<newline>Input: '' @ inputs ! i, Inr (rs ! i)) \<in> set ?as" by simp
    qed
    have "parallel api latency w prompt inputs = Some (Inr rs, w')"
      using run by (simp add: parallel_def)
    moreover have "length rs = length inputs" using len by simp
    moreover have "map fst (pending ?ps) = map (\<lambda>input. prompt @ ''\<newline>Input: '' @ input) inputs"
      by (simp only: pending_parallel) (simp add: parallel_jobs_def comp_def)
    with snt have "sent w' = sent w @ map (\<lambda>input. prompt @ ''\<newline>Input: '' @ input) inputs"
      by (simp only:)
    ultimately show ?thesis using aligned by blast
  qed
qed

theorem parallel_index_aligned_witness:
  "list_all succeeded
     (answers suffix_stub (completion_order (\<lambda>i. 3 - i) (parallel_jobs ''p'' [''a'', ''b'', ''c'']))
        (foldl issue world0 (map fst (parallel_jobs ''p'' [''a'', ''b'', ''c''])))) \<and>
   parallel suffix_stub (\<lambda>i. 3 - i) world0 ''p'' [''a'', ''b'', ''c'']
     = Some (Inr [''p\<newline>Input: a-B'', ''p\<newline>Input: b-B'', ''p\<newline>Input: c-A''],
         \<lparr>client = 3, sent = [''p\<newline>Input: a'', ''p\<newline>Input: b'', ''p\<newline>Input: c'']\<rparr>) \<and>
   (\<exists>rs w'. parallel suffix_stub (\<lambda>i. 3 - i) world0 ''p'' [''a'', ''b'', ''c''] = Some (Inr rs, w') \<and>
           length rs = length [''a'', ''b'', ''c''] \<and>
           sent w' = sent world0 @ map (\<lambda>input. ''p'' @ ''\<newline>Input: '' @ input) [''a'', ''b'', ''c''] \<and>
           (\<forall>i<length [''a'', ''b'', ''c''].
              (i, ''p'' @ ''\<newline>Input: '' @ [''a'', ''b'', ''c''] ! i, Inr (rs ! i))
                \<in> set (answers suffix_stub (completion_order (\<lambda>i. 3 - i) (parallel_jobs ''p'' [''a'', ''b'', ''c'']))
                         (foldl issue world0 (map fst (parallel_jobs ''p'' [''a'', ''b'', ''c'']))))))"
proof (intro conjI)
  show ok: "list_all succeeded
     (answers suffix_stub (completion_order (\<lambda>i. 3 - i) (parallel_jobs ''p'' [''a'', ''b'', ''c'']))
        (foldl issue world0 (map fst (parallel_jobs ''p'' [''a'', ''b'', ''c'']))))"
    by code_simp
  show "parallel suffix_stub (\<lambda>i. 3 - i) world0 ''p'' [''a'', ''b'', ''c'']
     = Some (Inr [''p\<newline>Input: a-B'', ''p\<newline>Input: b-B'', ''p\<newline>Input: c-A''],
         \<lparr>client = 3, sent = [''p\<newline>Input: a'', ''p\<newline>Input: b'', ''p\<newline>Input: c'']\<rparr>)"
    by code_simp
  show "\<exists>rs w'. parallel suffix_stub (\<lambda>i. 3 - i) world0 ''p'' [''a'', ''b'', ''c''] = Some (Inr rs, w') \<and>
           length rs = length [''a'', ''b'', ''c''] \<and>
           sent w' = sent world0 @ map (\<lambda>input. ''p'' @ ''\<newline>Input: '' @ input) [''a'', ''b'', ''c''] \<and>
           (\<forall>i<length [''a'', ''b'', ''c''].
              (i, ''p'' @ ''\<newline>Input: '' @ [''a'', ''b'', ''c''] ! i, Inr (rs ! i))
                \<in> set (answers suffix_stub (completion_order (\<lambda>i. 3 - i) (parallel_jobs ''p'' [''a'', ''b'', ''c'']))
                         (foldl issue world0 (map fst (parallel_jobs ''p'' [''a'', ''b'', ''c''])))))"
    by (rule parallel_index_aligned [OF ok])
qed

lemma process_after_orchestrator:
  assumes "formatPrompt orchestratorPrompt (spread [(''task'', task)] ctx) = Inr orchestratorInput"
    and "llmCall api w orchestratorInput = (Inr orchestratorResponse, w1)"
  shows "process api latency w orchestratorPrompt workerPrompt task ctx =
     (case promise_all api latency (worker_promises workerPrompt task ctx orchestratorResponse) w1 of
        None \<Rightarrow> None
      | Some (Inl e, w2) \<Rightarrow> Some (Inl e, w2)
      | Some (Inr workerResults, w2) \<Rightarrow>
          Some (Inr \<lparr>analysis = extractXml orchestratorResponse ''analysis'',
                     worker_results = workerResults\<rparr>, w2))"
  using assms by (simp add: process_def worker_promises_def)

text \<open>
  C7: when some call of \<open>parallel\<close> fails, \<open>parallel\<close> fails with the error of the first call
  to fail in the order of completion and returns no list; it returns a list only when
  every call succeeded. The same holds for the workers of \<open>process\<close> once the orchestrator
  has answered: a failing worker call makes \<open>process\<close> fail, and \<open>process\<close> returns
  worker results, one for each promise, only when every worker call succeeded.
\<close>

theorem fan_out_all_or_nothing:
  "(\<not> list_all succeeded
        (answers api (completion_order latency (parallel_jobs prompt inputs))
           (foldl issue w (map fst (parallel_jobs prompt inputs)))) \<longrightarrow>
      (\<exists>e w' as1 i p as2.
          parallel api latency w prompt inputs = Some (Inl e, w') \<and>
          answers api (completion_order latency (parallel_jobs prompt inputs))
            (foldl issue w (map fst (parallel_jobs prompt inputs))) = as1 @ (i, p, Inl e) # as2 \<and>
          list_all succeeded as1)) \<and>
   (\<forall>rs w'. parallel api latency w prompt inputs = Some (Inr rs, w') \<longrightarrow>
      length rs = length inputs \<and>
      list_all succeeded
        (answers api (completion_order latency (parallel_jobs prompt inputs))
           (foldl issue w (map fst (parallel_jobs prompt inputs))))) \<and>
   (\<forall>orchestratorInput orchestratorResponse w1.
      formatPrompt orchestratorPrompt (spread [(''task'', task)] ctx) = Inr orchestratorInput \<longrightarrow>
      llmCall api w orchestratorInput = (Inr orchestratorResponse, w1) \<longrightarrow>
      (\<not> list_all succeeded
          (answers api
             (completion_order latency
                (pending (worker_promises workerPrompt task ctx orchestratorResponse)))
             (foldl issue w1
                (map fst (pending (worker_promises workerPrompt task ctx orchestratorResponse))))) \<longrightarrow>
         (\<exists>e w'. process api latency w orchestratorPrompt workerPrompt task ctx = Some (Inl e, w'))) \<and>
      (\<forall>out w'. process api latency w orchestratorPrompt workerPrompt task ctx = Some (Inr out, w') \<longrightarrow>
         length (worker_results out)
           = length (worker_promises workerPrompt task ctx orchestratorResponse) \<and>
         rejected (worker_promises workerPrompt task ctx orchestratorResponse) = [] \<and>
         list_all succeeded
          (answers api
             (completion_order latency
                (pending (worker_promises workerPrompt task ctx orchestratorResponse)))
             (foldl issue w1
                (map fst (pending (worker_promises workerPrompt task ctx orchestratorResponse)))))))"
proof (intro conjI allI impI)
  let ?ps = "map (\<lambda>input. Awaiting (prompt @ ''\<newline>Input: '' @ input) (\<lambda>t. t)) inputs"
  let ?as = "answers api (completion_order latency (parallel_jobs prompt inputs))
           (foldl issue w (map fst (parallel_jobs prompt inputs)))"
  {
    assume "\<not> list_all succeeded ?as"
    then have bad: "\<not> list_all succeeded
        (answers api (completion_order latency (pending ?ps)) (foldl issue w (map fst (pending ?ps))))"
      unfolding pending_parallel .
    from promise_all_rejects [OF rejected_parallel bad]
    show "\<exists>e w' as1 i p as2.
          parallel api latency w prompt inputs = Some (Inl e, w') \<and> ?as = as1 @ (i, p, Inl e) # as2 \<and>
          list_all succeeded as1"
      unfolding parallel_def pending_parallel by blast
  }
  {
    fix rs w'
    assume "parallel api latency w prompt inputs = Some (Inr rs, w')"
    then have "promise_all api latency ?ps w = Some (Inr rs, w')" by (simp add: parallel_def)
    from promise_all_value [OF this]
    have len: "length rs = length ?ps" and
      ok: "list_all succeeded
        (answers api (completion_order latency (pending ?ps)) (foldl issue w (map fst (pending ?ps))))"
      by blast+
    from len show "length rs = length inputs" by simp
    from ok show "list_all succeeded ?as" unfolding pending_parallel .
  }
  fix orchestratorInput orchestratorResponse w1
  assume fmt: "formatPrompt orchestratorPrompt (spread [(''task'', task)] ctx) = Inr orchestratorInput"
    and call: "llmCall api w orchestratorInput = (Inr orchestratorResponse, w1)"
  let ?ws = "worker_promises workerPrompt task ctx orchestratorResponse"
  let ?was = "answers api (completion_order latency (pending ?ws)) (foldl issue w1 (map fst (pending ?ws)))"
  note unfold = process_after_orchestrator [OF fmt call, of latency workerPrompt]
  {
    assume "\<not> list_all succeeded ?was"
    from promise_all_fails [OF this] obtain e w' where
      "promise_all api latency ?ws w1 = Some (Inl e, w')" by blast
    then have "process api latency w orchestratorPrompt workerPrompt task ctx = Some (Inl e, w')"
      by (simp add: unfold)
    then show "\<exists>e w'. process api latency w orchestratorPrompt workerPrompt task ctx = Some (Inl e, w')"
      by blast
  }
  {
    fix out w'
    assume run: "process api latency w orchestratorPrompt workerPrompt task ctx = Some (Inr out, w')"
    then obtain rs where pa: "promise_all api latency ?ws w1 = Some (Inr rs, w')"
      and out: "out = \<lparr>analysis = extractXml orchestratorResponse ''analysis'', worker_results = rs\<rparr>"
      unfolding unfold by (auto split: option.splits sum.splits prod.splits)
    from promise_all_value [OF pa] out
    show "length (worker_results out) = length ?ws" "rejected ?ws = []" "list_all succeeded ?was"
      by simp_all
  }
qed

theorem fan_out_all_or_nothing_witness:
  "\<not> list_all succeeded
        (answers flaky_stub (completion_order (\<lambda>i. 0) (parallel_jobs ''p'' [''a'', ''b'', ''c'']))
           (foldl issue world0 (map fst (parallel_jobs ''p'' [''a'', ''b'', ''c''])))) \<and>
   (\<exists>e w' as1 i p as2.
       parallel flaky_stub (\<lambda>i. 0) world0 ''p'' [''a'', ''b'', ''c''] = Some (Inl e, w') \<and>
       answers flaky_stub (completion_order (\<lambda>i. 0) (parallel_jobs ''p'' [''a'', ''b'', ''c'']))
         (foldl issue world0 (map fst (parallel_jobs ''p'' [''a'', ''b'', ''c''])))
           = as1 @ (i, p, Inl e) # as2 \<and>
       list_all succeeded as1) \<and>
   formatPrompt ''Plan {task}'' (spread [(''task'', ''T'')] []) = Inr ''Plan T'' \<and>
   llmCall orchestrator_stub world0 ''Plan T'' = (Inr two_tasks, \<lparr>client = 1, sent = [''Plan T'']\<rparr>) \<and>
   \<not> list_all succeeded
        (answers orchestrator_stub
           (completion_order (\<lambda>i. 0) (pending (worker_promises ''Do {task_type}: {task_description}'' ''T'' [] two_tasks)))
           (foldl issue \<lparr>client = 1, sent = [''Plan T'']\<rparr>
              (map fst (pending (worker_promises ''Do {task_type}: {task_description}'' ''T'' [] two_tasks))))) \<and>
   (\<exists>e w'. process orchestrator_stub (\<lambda>i. 0) world0 ''Plan {task}'' ''Do {task_type}: {task_description}'' ''T'' []
              = Some (Inl e, w'))"
proof (intro conjI)
  show bad: "\<not> list_all succeeded
        (answers flaky_stub (completion_order (\<lambda>i. 0) (parallel_jobs ''p'' [''a'', ''b'', ''c'']))
           (foldl issue world0 (map fst (parallel_jobs ''p'' [''a'', ''b'', ''c'']))))"
    by code_simp
  from fan_out_all_or_nothing [where api = flaky_stub and latency = "\<lambda>i. 0" and prompt = "''p''"
         and inputs = "[''a'', ''b'', ''c'']" and w = world0, THEN conjunct1] bad
  show "\<exists>e w' as1 i p as2.
       parallel flaky_stub (\<lambda>i. 0) world0 ''p'' [''a'', ''b'', ''c''] = Some (Inl e, w') \<and>
       answers flaky_stub (completion_order (\<lambda>i. 0) (parallel_jobs ''p'' [''a'', ''b'', ''c'']))
         (foldl issue world0 (map fst (parallel_jobs ''p'' [''a'', ''b'', ''c''])))
           = as1 @ (i, p, Inl e) # as2 \<and>
       list_all succeeded as1"
    by (rule mp)
  show fmt: "formatPrompt ''Plan {task}'' (spread [(''task'', ''T'')] []) = Inr ''Plan T''"
    by code_simp
  show call: "llmCall orchestrator_stub world0 ''Plan T'' = (Inr two_tasks, \<lparr>client = 1, sent = [''Plan T'']\<rparr>)"
    by code_simp
  show wbad: "\<not> list_all succeeded
        (answers orchestrator_stub
           (completion_order (\<lambda>i. 0) (pending (worker_promises ''Do {task_type}: {task_description}'' ''T'' [] two_tasks)))
           (foldl issue \<lparr>client = 1, sent = [''Plan T'']\<rparr>
              (map fst (pending (worker_promises ''Do {task_type}: {task_description}'' ''T'' [] two_tasks)))))"
    by code_simp
  from fan_out_all_or_nothing [where api = orchestrator_stub and latency = "\<lambda>i. 0" and w = world0
         and orchestratorPrompt = "''Plan {task}''" and task = "''T''" and ctx = "[]"
         and workerPrompt = "''Do {task_type}: {task_description}''", THEN conjunct2, THEN conjunct2, rule_format, OF fmt call,
         THEN conjunct1, rule_format, OF wbad]
  show "\<exists>e w'. process orchestrator_stub (\<lambda>i. 0) world0 ''Plan {task}'' ''Do {task_type}: {task_description}'' ''T'' []
              = Some (Inl e, w')" .
qed

section \<open>route: results\<close>

lemma route_after_selection:
  assumes "llmCall api w (selectorPrompt (map fst routes) input) = (Inr routeResponse, w1)"
  shows "route api w input routes =
     (let routeKey = toLowerCase (trim (extractXml routeResponse ''selection''));
          selectedPrompt = get_property routes routeKey
      in if \<not> truthy selectedPrompt then (Inl (InvalidRoute routeKey), w1)
         else llmCall api w1 (to_string selectedPrompt @ ''\<newline>Input: '' @ input))"
  using assms by (simp add: route_def)

text \<open>
  What \<open>route\<close> does once the classifier has answered: the chosen key is the trimmed,
  lower-cased content of \<open>selection\<close>. If the table has no such key and the key names no
  member every object inherits, or if the table holds the empty prompt for it, \<open>route\<close>
  fails with the invalid-route error after that one call; if the table holds a prompt
  that is not empty, \<open>route\<close> is the second call, with the prompt, the line \<open>Input: \<close> and
  the input.
\<close>

lemma route_dispatch:
  assumes "llmCall api w (selectorPrompt (map fst routes) input) = (Inr routeResponse, w1)"
  shows
    "sent w1 = sent w @ [selectorPrompt (map fst routes) input] \<and>
     (map_of routes (toLowerCase (trim (extractXml routeResponse ''selection''))) = None \<and>
      toLowerCase (trim (extractXml routeResponse ''selection'')) \<notin> set object_prototype_names \<longrightarrow>
        route api w input routes
          = (Inl (InvalidRoute (toLowerCase (trim (extractXml routeResponse ''selection'')))), w1)) \<and>
     (map_of routes (toLowerCase (trim (extractXml routeResponse ''selection''))) = Some [] \<longrightarrow>
        route api w input routes
          = (Inl (InvalidRoute (toLowerCase (trim (extractXml routeResponse ''selection'')))), w1)) \<and>
     (\<forall>selectedPrompt.
        map_of routes (toLowerCase (trim (extractXml routeResponse ''selection''))) = Some selectedPrompt \<and>
        selectedPrompt \<noteq> [] \<longrightarrow>
        route api w input routes = llmCall api w1 (selectedPrompt @ ''\<newline>Input: '' @ input))"
  using sent_llmCall [OF assms]
  by (simp add: route_after_selection [OF assms] get_property_def truthy_def to_string_def)

text \<open>A classifier that answers \<open>BILLING\<close> in upper case: dispatch to the billing prompt, and
  the error for a table without the key.\<close>

lemma route_examples:
  "route selector_stub world0 ''x'' support_routes
     = (Inr ''handled: P1\<newline>Input: x'',
        \<lparr>client = 2, sent = [selectorPrompt [''billing'', ''technical''] ''x'', ''P1\<newline>Input: x'']\<rparr>)"
  "route selector_stub world0 ''x'' [(''technical'', ''P2'')]
     = (Inl (InvalidRoute ''billing''), \<lparr>client = 1, sent = [selectorPrompt [''technical''] ''x'']\<rparr>)"
  by code_simp+

text \<open>
  C3 where the guard \<open>!selectedPrompt\<close> misses what its message says, that the key is not
  found in the routes. The classifier selects \<open>constructor\<close>, which the table does not
  hold: the lookup finds the member every object inherits, the guard lets it through, and
  \<open>route\<close> makes the second call with the text of that function for a prompt, where C3 asks
  for the error. And a table holds the key with the empty prompt: the guard takes the
  empty string for a missing key, and \<open>route\<close> fails where C3 asks for the second call.
\<close>

theorem route_guard_misfires:
  "map_of support_routes ''constructor'' = None \<and>
   route inherited_stub world0 ''x'' support_routes
     = (Inr ''handled: function Object() { [native code] }\<newline>Input: x'',
        \<lparr>client = 2,
         sent = [selectorPrompt [''billing'', ''technical''] ''x'',
                 ''function Object() { [native code] }\<newline>Input: x'']\<rparr>) \<and>
   map_of [(''billing'', [])] ''billing'' = Some ([] :: string) \<and>
   route selector_stub world0 ''x'' [(''billing'', [])]
     = (Inl (InvalidRoute ''billing''), \<lparr>client = 1, sent = [selectorPrompt [''billing''] ''x'']\<rparr>)"
  by code_simp

section \<open>The parse of the decomposition: results\<close>

text \<open>No subtask parsed: the result has the analysis and no worker result, and no further
  call is made.\<close>

lemma process_no_subtasks:
  assumes "formatPrompt orchestratorPrompt (spread [(''task'', task)] ctx) = Inr orchestratorInput"
    and "llmCall api w orchestratorInput = (Inr orchestratorResponse, w1)"
    and "parse_tasks (extractXml orchestratorResponse ''tasks'') = []"
  shows "process api latency w orchestratorPrompt workerPrompt task ctx =
           Some (Inr \<lparr>analysis = extractXml orchestratorResponse ''analysis'', worker_results = []\<rparr>, w1)"
  using assms(3)
  by (simp add: process_after_orchestrator [OF assms(1,2)] worker_promises_def promise_all_def
        pending_simps rejected_simps settle_all_done)

text \<open>
  C4 on a decomposition of three blocks, the second without a description: the lazy group
  for the type runs on from the second block into the third, so the parse yields the first
  block and one subtask made of both the others, and \<open>process\<close> runs a worker for each.
  (C4 asks for the first and the third block, the second skipped.)
\<close>

theorem parse_tasks_merges_blocks:
  "parse_tasks three_blocks =
     [\<lparr>type = ''A'', description = ''a''\<rparr>,
      \<lparr>type = ''M</type></task><task><type>B'', description = ''b''\<rparr>] \<and>
   process merging_stub (\<lambda>i. 0) world0 ''Plan {task}'' ''{task_type}: {task_description}'' ''T'' [] =
     Some (Inr \<lparr>analysis = ''plan'',
                worker_results =
                  [\<lparr>type = ''A'', description = ''a'', result' = ''done''\<rparr>,
                   \<lparr>type = ''M</type></task><task><type>B'', description = ''b'', result' = ''done''\<rparr>]\<rparr>,
           \<lparr>client = 3, sent = [''Plan T'', ''A: a'', ''M</type></task><task><type>B: b'']\<rparr>)"
  by code_simp

section \<open>loop: results\<close>

text \<open>The verdicts whose upper case is \<open>PASS\<close>: a character has the upper case of a letter of
  \<open>PASS\<close> only if it is that letter in either case, and the sharp s alone has the upper case
  \<open>SS\<close>.\<close>

lemma char_eq_code_unit: "c = d \<longleftrightarrow> (of_char c :: nat) = of_char d"
  by simp

lemma upper_units_P: "upper_units c = [0x50] \<longleftrightarrow> c = CHR ''p'' \<or> c = CHR ''P''"
  unfolding char_eq_code_unit [of c] by (auto simp: upper_units_def Let_def)

lemma upper_units_A: "upper_units c = [0x41] \<longleftrightarrow> c = CHR ''a'' \<or> c = CHR ''A''"
  unfolding char_eq_code_unit [of c] by (auto simp: upper_units_def Let_def)

lemma upper_units_S: "upper_units c = [0x53] \<longleftrightarrow> c = CHR ''s'' \<or> c = CHR ''S''"
  unfolding char_eq_code_unit [of c] by (auto simp: upper_units_def Let_def)

lemma upper_units_SS: "upper_units c = [0x53, 0x53] \<longleftrightarrow> c = CHR 0xDF"
  unfolding char_eq_code_unit [of c] by (auto simp: upper_units_def Let_def)

lemma upper_units_shape: "(\<exists>n. upper_units c = [n]) \<or> upper_units c = [0x53, 0x53]"
  by (auto simp: upper_units_def Let_def)

lemma toUpperCase_Nil: "toUpperCase v = [] \<longleftrightarrow> v = []"
proof (cases v)
  case (Cons c cs)
  with upper_units_shape [of c] show ?thesis by (auto simp: toUpperCase_def)
qed (simp add: toUpperCase_def)

lemma toUpperCase_Cons: "toUpperCase (c # cs) = upper_units c @ toUpperCase cs"
  by (simp add: toUpperCase_def)

lemma toUpperCase_eq_Cons:
  "toUpperCase v = x # xs \<longleftrightarrow>
     (\<exists>c cs. v = c # cs \<and>
        ((upper_units c = [x] \<and> toUpperCase cs = xs) \<or>
         (upper_units c = [0x53, 0x53] \<and> x = 0x53 \<and> xs = 0x53 # toUpperCase cs)))"
proof (cases v)
  case Nil
  then show ?thesis by (simp add: toUpperCase_def)
next
  case (Cons c cs)
  with upper_units_shape [of c] show ?thesis by (auto simp: toUpperCase_Cons)
qed

lemma pass_spellings_iff:
  "v \<in> set pass_spellings \<longleftrightarrow>
     (\<exists>a b c d. v = [a, b, c, d] \<and> (a = CHR ''p'' \<or> a = CHR ''P'') \<and> (b = CHR ''a'' \<or> b = CHR ''A'') \<and>
        (c = CHR ''s'' \<or> c = CHR ''S'') \<and> (d = CHR ''s'' \<or> d = CHR ''S''))"
  by (auto simp: pass_spellings_def)

lemma sharp_s_spellings_iff:
  "v \<in> set sharp_s_spellings \<longleftrightarrow>
     (\<exists>a b. v = [a, b, CHR 0xDF] \<and> (a = CHR ''p'' \<or> a = CHR ''P'') \<and> (b = CHR ''a'' \<or> b = CHR ''A''))"
  by (auto simp: sharp_s_spellings_def)

lemma pass_spellings_upper:
  "v \<in> set pass_spellings \<or> v \<in> set sharp_s_spellings \<Longrightarrow> toUpperCase v = code_units ''PASS''"
  unfolding pass_spellings_iff sharp_s_spellings_iff
  by (elim disjE exE conjE) (simp_all add: toUpperCase_def upper_units_def code_units_def)

lemma toUpperCase_single:
  "toUpperCase v = [x] \<longleftrightarrow> (\<exists>c. v = [c] \<and> upper_units c = [x])"
  unfolding toUpperCase_eq_Cons by (auto simp: toUpperCase_Nil)

lemma toUpperCase_letter:
  assumes "toUpperCase v = x # xs" and "x \<noteq> 0x53"
  obtains c cs where "v = c # cs" "upper_units c = [x]" "toUpperCase cs = xs"
  using assms unfolding toUpperCase_eq_Cons by blast

lemma toUpperCase_pass:
  "toUpperCase v = code_units ''PASS'' \<longleftrightarrow> v \<in> set pass_spellings \<or> v \<in> set sharp_s_spellings"
proof
  assume "toUpperCase v = code_units ''PASS''"
  then have "toUpperCase v = [0x50, 0x41, 0x53, 0x53]" by (simp add: code_units_def)
  then obtain a v1 where v: "v = a # v1" and a: "upper_units a = [0x50]"
    and v1: "toUpperCase v1 = [0x41, 0x53, 0x53]"
    by (rule toUpperCase_letter) simp_all
  from v1 obtain b v2 where v1': "v1 = b # v2" and b: "upper_units b = [0x41]"
    and v2: "toUpperCase v2 = [0x53, 0x53]"
    by (rule toUpperCase_letter) simp_all
  from v2 obtain c r where v2': "v2 = c # r"
    and c: "upper_units c = [0x53] \<and> toUpperCase r = [0x53] \<or> upper_units c = [0x53, 0x53] \<and> [] = toUpperCase r"
    unfolding toUpperCase_eq_Cons by blast
  from c consider d where "upper_units c = [0x53]" "r = [d]" "upper_units d = [0x53]"
    | "upper_units c = [0x53, 0x53]" "r = []"
    unfolding toUpperCase_single eq_commute [of "[]"] toUpperCase_Nil by blast
  then show "v \<in> set pass_spellings \<or> v \<in> set sharp_s_spellings"
  proof cases
    case 1
    with v v1' v2' a b have "v \<in> set pass_spellings"
      unfolding upper_units_P upper_units_A upper_units_S pass_spellings_iff by simp
    then show ?thesis ..
  next
    case 2
    with v v1' v2' a b have "v \<in> set sharp_s_spellings"
      unfolding upper_units_P upper_units_A upper_units_SS sharp_s_spellings_iff by simp
    then show ?thesis ..
  qed
next
  assume "v \<in> set pass_spellings \<or> v \<in> set sharp_s_spellings"
  then show "toUpperCase v = code_units ''PASS''" by (rule pass_spellings_upper)
qed

lemma refine_step:
  assumes "evaluate api w evaluatorPrompt res task = (Inr (verdict, feedback), w1)"
  shows "refine api task evaluatorPrompt generatorPrompt memory cot res w =
     (if toUpperCase verdict = code_units ''PASS'' then Some (Inr (res, cot), w1)
      else (case generate api w1 generatorPrompt task (feedback_context memory feedback) of
              (Inl e, w2) \<Rightarrow> Some (Inl e, w2)
            | (Inr (thoughts', res'), w2) \<Rightarrow>
                refine api task evaluatorPrompt generatorPrompt (memory @ [res'])
                  (cot @ [\<lparr>thoughts = thoughts', result = res'\<rparr>]) res' w2))"
  by (subst refine.simps) (simp add: assms)

lemma refine_returns_on_pass:
  fixes api :: "'s api"
  assumes "refine api task evaluatorPrompt generatorPrompt memory cot res w = Some y"
  shows "\<forall>out hist w'. y = (Inr (out, hist), w') \<longrightarrow>
           (\<exists>w0 verdict feedback.
              evaluate api w0 evaluatorPrompt out task = (Inr (verdict, feedback), w') \<and>
              toUpperCase verdict = code_units ''PASS'')"
proof -
  define Q where "Q = (\<lambda>(api :: 's api) (task :: string) (evaluatorPrompt :: string)
      (generatorPrompt :: string) (memory :: string list) (cot :: chainOfThoughtItem list)
      (res :: string) (w :: 's world) (y :: (error + string \<times> chainOfThoughtItem list) \<times> 's world).
      \<forall>out hist w'. y = (Inr (out, hist), w') \<longrightarrow>
           (\<exists>w0 verdict feedback.
              evaluate api w0 evaluatorPrompt out task = (Inr (verdict, feedback), w') \<and>
              toUpperCase verdict = code_units ''PASS''))"
  have "Q api task evaluatorPrompt generatorPrompt memory cot res w y"
  proof (rule refine.raw_induct [where P = Q, OF _ assms])
    fix rf :: "'s api \<Rightarrow> string \<Rightarrow> string \<Rightarrow> string \<Rightarrow> string list \<Rightarrow> chainOfThoughtItem list \<Rightarrow> string \<Rightarrow>
        's world \<Rightarrow> ((error + string \<times> chainOfThoughtItem list) \<times> 's world) option"
    fix api :: "'s api" and task evaluatorPrompt generatorPrompt :: string
      and memory :: "string list" and cot :: "chainOfThoughtItem list" and res :: string
      and w :: "'s world" and y :: "(error + string \<times> chainOfThoughtItem list) \<times> 's world"
    assume IH: "\<And>api task evaluatorPrompt generatorPrompt memory cot res w y.
        rf api task evaluatorPrompt generatorPrompt memory cot res w = Some y \<Longrightarrow>
        Q api task evaluatorPrompt generatorPrompt memory cot res w y"
    assume body: "(case evaluate api w evaluatorPrompt res task of
        (Inl e, w1) \<Rightarrow> Some (Inl e, w1)
      | (Inr (evaluation, feedback), w1) \<Rightarrow>
          if toUpperCase evaluation = code_units ''PASS'' then Some (Inr (res, cot), w1)
          else (case generate api w1 generatorPrompt task (feedback_context memory feedback) of
                  (Inl e, w2) \<Rightarrow> Some (Inl e, w2)
                | (Inr (thoughts', res'), w2) \<Rightarrow>
                    rf api task evaluatorPrompt generatorPrompt (memory @ [res'])
                      (cot @ [\<lparr>thoughts = thoughts', result = res'\<rparr>]) res' w2)) = Some y"
    show "Q api task evaluatorPrompt generatorPrompt memory cot res w y"
      unfolding Q_def
    proof (intro allI impI)
      fix out hist w' assume y: "y = (Inr (out, hist), w')"
      obtain r w1 where ev: "evaluate api w evaluatorPrompt res task = (r, w1)"
        by (cases "evaluate api w evaluatorPrompt res task")
      show "\<exists>w0 verdict feedback.
                evaluate api w0 evaluatorPrompt out task = (Inr (verdict, feedback), w') \<and>
                toUpperCase verdict = code_units ''PASS''"
      proof (cases r)
        case (Inl e)
        with body ev y show ?thesis by simp
      next
        case (Inr vf)
        obtain verdict feedback where vf: "vf = (verdict, feedback)" by (cases vf)
        show ?thesis
        proof (cases "toUpperCase verdict = code_units ''PASS''")
          case True
          with body ev Inr vf y have "out = res" "w' = w1" by simp_all
          with ev Inr vf True show ?thesis by blast
        next
          case False
          obtain g w2 where gen: "generate api w1 generatorPrompt task (feedback_context memory feedback) = (g, w2)"
            by (cases "generate api w1 generatorPrompt task (feedback_context memory feedback)")
          show ?thesis
          proof (cases g)
            case (Inl e)
            with body ev Inr vf False gen y show ?thesis by simp
          next
            case inr: (Inr tr)
            obtain th res' where tr: "tr = (th, res')" by (cases tr)
            from body ev Inr vf False gen inr tr
            have "rf api task evaluatorPrompt generatorPrompt (memory @ [res'])
                    (cot @ [\<lparr>thoughts = th, result = res'\<rparr>]) res' w2 = Some y"
              by simp
            from IH [OF this] y show ?thesis unfolding Q_def by blast
          qed
        qed
      qed
    qed
  qed
  then show ?thesis unfolding Q_def .
qed

lemma refine_never_returns:
  fixes api :: "'s api"
  assumes E: "\<And>w c. \<exists>verdict feedback w1.
                evaluate api w evaluatorPrompt c task = (Inr (verdict, feedback), w1) \<and>
                toUpperCase verdict \<noteq> code_units ''PASS''"
    and G: "\<And>w x. \<exists>thoughts' res' w2. generate api w generatorPrompt task x = (Inr (thoughts', res'), w2)"
  shows "refine api task evaluatorPrompt generatorPrompt memory cot res w = None"
proof (rule ccontr)
  assume "refine api task evaluatorPrompt generatorPrompt memory cot res w \<noteq> None"
  then obtain y where run: "refine api task evaluatorPrompt generatorPrompt memory cot res w = Some y"
    by blast
  define Q where "Q = (\<lambda>(api' :: 's api) (task' :: string) (evaluatorPrompt' :: string)
      (generatorPrompt' :: string) (memory :: string list) (cot :: chainOfThoughtItem list)
      (res :: string) (w :: 's world) (y :: (error + string \<times> chainOfThoughtItem list) \<times> 's world).
      api' = api \<and> task' = task \<and> evaluatorPrompt' = evaluatorPrompt \<and>
      generatorPrompt' = generatorPrompt \<longrightarrow> False)"
  have "Q api task evaluatorPrompt generatorPrompt memory cot res w y"
  proof (rule refine.raw_induct [where P = Q, OF _ run])
    fix rf :: "'s api \<Rightarrow> string \<Rightarrow> string \<Rightarrow> string \<Rightarrow> string list \<Rightarrow> chainOfThoughtItem list \<Rightarrow> string \<Rightarrow>
        's world \<Rightarrow> ((error + string \<times> chainOfThoughtItem list) \<times> 's world) option"
    fix api' :: "'s api" and task' evaluatorPrompt' generatorPrompt' :: string
      and memory :: "string list" and cot :: "chainOfThoughtItem list" and res :: string
      and w :: "'s world" and y :: "(error + string \<times> chainOfThoughtItem list) \<times> 's world"
    assume IH: "\<And>api task evaluatorPrompt generatorPrompt memory cot res w y.
        rf api task evaluatorPrompt generatorPrompt memory cot res w = Some y \<Longrightarrow>
        Q api task evaluatorPrompt generatorPrompt memory cot res w y"
    assume body: "(case evaluate api' w evaluatorPrompt' res task' of
        (Inl e, w1) \<Rightarrow> Some (Inl e, w1)
      | (Inr (evaluation, feedback), w1) \<Rightarrow>
          if toUpperCase evaluation = code_units ''PASS'' then Some (Inr (res, cot), w1)
          else (case generate api' w1 generatorPrompt' task' (feedback_context memory feedback) of
                  (Inl e, w2) \<Rightarrow> Some (Inl e, w2)
                | (Inr (thoughts', res'), w2) \<Rightarrow>
                    rf api' task' evaluatorPrompt' generatorPrompt' (memory @ [res'])
                      (cot @ [\<lparr>thoughts = thoughts', result = res'\<rparr>]) res' w2)) = Some y"
    show "Q api' task' evaluatorPrompt' generatorPrompt' memory cot res w y"
      unfolding Q_def
    proof (intro impI, elim conjE)
      assume eqs: "api' = api" "task' = task" "evaluatorPrompt' = evaluatorPrompt"
        "generatorPrompt' = generatorPrompt"
      from E [of w res] obtain verdict feedback w1 where
        ev: "evaluate api w evaluatorPrompt res task = (Inr (verdict, feedback), w1)" and
        np: "toUpperCase verdict \<noteq> code_units ''PASS''" by blast
      from G [of w1 "feedback_context memory feedback"] obtain th res' w2 where
        gen: "generate api w1 generatorPrompt task (feedback_context memory feedback) = (Inr (th, res'), w2)"
        by blast
      from body eqs ev np gen
      have "rf api task evaluatorPrompt generatorPrompt (memory @ [res'])
              (cot @ [\<lparr>thoughts = th, result = res'\<rparr>]) res' w2 = Some y"
        by simp
      from IH [OF this] show False unfolding Q_def by simp
    qed
  qed
  then show False unfolding Q_def by simp
qed

text \<open>
  C2 (as amended): when an evaluation returns a verdict, the loop returns at once, with
  the latest candidate and the history, if the upper case of the verdict is \<open>PASS\<close>, and
  otherwise generates again with the feedback and goes on from the new candidate; so a
  loop whose first verdict passes returns the first candidate. Among the texts of code
  units below \<open>0x100\<close>, the verdicts that pass are the sixteen spellings of \<open>PASS\<close> in upper
  and lower case and the four with a sharp s for the last two letters: \<open>pass\<close>, \<open>PASS\<close> and
  \<open>Pass\<close> pass, \<open>PASSED\<close>, \<open>PASS.\<close> and the empty verdict do not. A loop that returns a result returns it from an evaluation of that
  result whose verdict passes, and a loop whose evaluations never pass and whose calls
  never fail does not return.
\<close>

theorem loop_returns_exactly_on_pass:
  fixes api :: "'s api"
  shows
  "(\<forall>verdict feedback w1.
      evaluate api w evaluatorPrompt res task = (Inr (verdict, feedback), w1) \<longrightarrow>
      refine api task evaluatorPrompt generatorPrompt memory cot res w =
        (if toUpperCase verdict = code_units ''PASS'' then Some (Inr (res, cot), w1)
         else (case generate api w1 generatorPrompt task (feedback_context memory feedback) of
                 (Inl e, w2) \<Rightarrow> Some (Inl e, w2)
               | (Inr (thoughts', res'), w2) \<Rightarrow>
                   refine api task evaluatorPrompt generatorPrompt (memory @ [res'])
                     (cot @ [\<lparr>thoughts = thoughts', result = res'\<rparr>]) res' w2))) \<and>
   (\<forall>thoughts0 res0 w0 verdict feedback w1.
      generate api w generatorPrompt task [] = (Inr (thoughts0, res0), w0) \<and>
      evaluate api w0 evaluatorPrompt res0 task = (Inr (verdict, feedback), w1) \<and>
      toUpperCase verdict = code_units ''PASS'' \<longrightarrow>
      loop api w task evaluatorPrompt generatorPrompt =
        Some (Inr (res0, [\<lparr>thoughts = thoughts0, result = res0\<rparr>]), w1)) \<and>
   (\<forall>verdict. toUpperCase verdict = code_units ''PASS'' \<longleftrightarrow>
      verdict \<in> set pass_spellings \<or> verdict \<in> set sharp_s_spellings) \<and>
   toUpperCase ''pass'' = code_units ''PASS'' \<and> toUpperCase ''PASS'' = code_units ''PASS'' \<and>
   toUpperCase ''Pass'' = code_units ''PASS'' \<and> toUpperCase ''PASSED'' \<noteq> code_units ''PASS'' \<and>
   toUpperCase ''PASS.'' \<noteq> code_units ''PASS'' \<and> toUpperCase [] \<noteq> code_units ''PASS'' \<and>
   (\<forall>out hist w'.
      loop api w task evaluatorPrompt generatorPrompt = Some (Inr (out, hist), w') \<longrightarrow>
      (\<exists>w0 verdict feedback.
         evaluate api w0 evaluatorPrompt out task = (Inr (verdict, feedback), w') \<and>
         toUpperCase verdict = code_units ''PASS'')) \<and>
   ((\<forall>w c. \<exists>verdict feedback w1.
        evaluate api w evaluatorPrompt c task = (Inr (verdict, feedback), w1) \<and>
        toUpperCase verdict \<noteq> code_units ''PASS'') \<longrightarrow>
    (\<forall>w x. \<exists>thoughts' res' w2.
        generate api w generatorPrompt task x = (Inr (thoughts', res'), w2)) \<longrightarrow>
    loop api w task evaluatorPrompt generatorPrompt = None)"
proof (intro conjI allI impI)
  fix verdict feedback w1
  assume "evaluate api w evaluatorPrompt res task = (Inr (verdict, feedback), w1)"
  then show "refine api task evaluatorPrompt generatorPrompt memory cot res w =
        (if toUpperCase verdict = code_units ''PASS'' then Some (Inr (res, cot), w1)
         else (case generate api w1 generatorPrompt task (feedback_context memory feedback) of
                 (Inl e, w2) \<Rightarrow> Some (Inl e, w2)
               | (Inr (thoughts', res'), w2) \<Rightarrow>
                   refine api task evaluatorPrompt generatorPrompt (memory @ [res'])
                     (cot @ [\<lparr>thoughts = thoughts', result = res'\<rparr>]) res' w2))"
    by (rule refine_step)
next
  fix thoughts0 res0 w0 verdict feedback w1
  assume a: "generate api w generatorPrompt task [] = (Inr (thoughts0, res0), w0) \<and>
      evaluate api w0 evaluatorPrompt res0 task = (Inr (verdict, feedback), w1) \<and>
      toUpperCase verdict = code_units ''PASS''"
  then have ev: "evaluate api w0 evaluatorPrompt res0 task = (Inr (verdict, feedback), w1)" by simp
  from a show "loop api w task evaluatorPrompt generatorPrompt =
        Some (Inr (res0, [\<lparr>thoughts = thoughts0, result = res0\<rparr>]), w1)"
    by (simp add: loop_def refine_step [OF ev])
next
  fix verdict
  show "toUpperCase verdict = code_units ''PASS'' \<longleftrightarrow>
      verdict \<in> set pass_spellings \<or> verdict \<in> set sharp_s_spellings"
    by (rule toUpperCase_pass)
next
  show "toUpperCase ''pass'' = code_units ''PASS''" "toUpperCase ''PASS'' = code_units ''PASS''"
    "toUpperCase ''Pass'' = code_units ''PASS''" "toUpperCase ''PASSED'' \<noteq> code_units ''PASS''"
    "toUpperCase ''PASS.'' \<noteq> code_units ''PASS''" "toUpperCase [] \<noteq> code_units ''PASS''"
    by (simp_all add: toUpperCase_def upper_units_def code_units_def)
next
  fix out hist w'
  assume run: "loop api w task evaluatorPrompt generatorPrompt = Some (Inr (out, hist), w')"
  obtain g w1 where gen: "generate api w generatorPrompt task [] = (g, w1)"
    by (cases "generate api w generatorPrompt task []")
  show "\<exists>w0 verdict feedback.
         evaluate api w0 evaluatorPrompt out task = (Inr (verdict, feedback), w') \<and>
         toUpperCase verdict = code_units ''PASS''"
  proof (cases g)
    case (Inl e)
    with run gen show ?thesis by (simp add: loop_def)
  next
    case (Inr tr)
    obtain th r where tr: "tr = (th, r)" by (cases tr)
    from run gen Inr tr
    have "refine api task evaluatorPrompt generatorPrompt [r] [\<lparr>thoughts = th, result = r\<rparr>] r w1
            = Some (Inr (out, hist), w')"
      by (simp add: loop_def)
    from refine_returns_on_pass [OF this] show ?thesis by blast
  qed
next
  assume E: "\<forall>w c. \<exists>verdict feedback w1.
        evaluate api w evaluatorPrompt c task = (Inr (verdict, feedback), w1) \<and>
        toUpperCase verdict \<noteq> code_units ''PASS''"
    and G: "\<forall>w x. \<exists>thoughts' res' w2.
        generate api w generatorPrompt task x = (Inr (thoughts', res'), w2)"
  from G obtain th r w1 where gen: "generate api w generatorPrompt task [] = (Inr (th, r), w1)"
    by blast
  have "refine api task evaluatorPrompt generatorPrompt [r] [\<lparr>thoughts = th, result = r\<rparr>] r w1 = None"
    using E G by (intro refine_never_returns) blast+
  with gen show "loop api w task evaluatorPrompt generatorPrompt = None"
    by (simp add: loop_def)
qed

lemma stubborn_facts:
  "stubborn_reply \<noteq> []"
  "extractXml stubborn_reply ''evaluation'' = ''PASSED''"
  "extractXml stubborn_reply ''feedback'' = ''f''"
  "extractXml stubborn_reply ''thoughts'' = ''t''"
  "extractXml stubborn_reply ''response'' = ''r''"
  by code_simp+

theorem loop_returns_exactly_on_pass_witness:
  "evaluate reviewer_stub world3 ''E'' ''r1'' ''T'' = (Inr (''Pass'', ''ok''), world4) \<and>
   refine reviewer_stub ''T'' ''E'' ''G'' [''r0'', ''r1'']
       [\<lparr>thoughts = ''t0'', result = ''r0''\<rparr>, \<lparr>thoughts = ''t1'', result = ''r1''\<rparr>] ''r1'' world3
     = Some (Inr (''r1'', [\<lparr>thoughts = ''t0'', result = ''r0''\<rparr>, \<lparr>thoughts = ''t1'', result = ''r1''\<rparr>]),
             world4) \<and>
   generate approving_stub world0 ''G'' ''T'' [] = (Inr (''t'', ''r''), \<lparr>client = 1, sent = [''G\<newline>Task: T'']\<rparr>) \<and>
   evaluate approving_stub \<lparr>client = 1, sent = [''G\<newline>Task: T'']\<rparr> ''E'' ''r'' ''T''
     = (Inr (''pass'', ''f''),
        \<lparr>client = 2, sent = [''G\<newline>Task: T'', ''E\<newline>Original task: T\<newline>Content to evaluate: r'']\<rparr>) \<and>
   loop approving_stub world0 ''T'' ''E'' ''G''
     = Some (Inr (''r'', [\<lparr>thoughts = ''t'', result = ''r''\<rparr>]),
             \<lparr>client = 2, sent = [''G\<newline>Task: T'', ''E\<newline>Original task: T\<newline>Content to evaluate: r'']\<rparr>) \<and>
   loop reviewer_stub world0 ''T'' ''E'' ''G''
     = Some (Inr (''r1'', [\<lparr>thoughts = ''t0'', result = ''r0''\<rparr>, \<lparr>thoughts = ''t1'', result = ''r1''\<rparr>]),
             world4) \<and>
   (\<exists>w0 verdict feedback.
       evaluate reviewer_stub w0 ''E'' ''r1'' ''T'' = (Inr (verdict, feedback), world4) \<and>
       toUpperCase verdict = code_units ''PASS'') \<and>
   (\<forall>w c. \<exists>verdict feedback w1.
       evaluate stubborn_stub w ''E'' c ''T'' = (Inr (verdict, feedback), w1) \<and>
       toUpperCase verdict \<noteq> code_units ''PASS'') \<and>
   (\<forall>w x. \<exists>thoughts' res' w2.
       generate stubborn_stub w ''G'' ''T'' x = (Inr (thoughts', res'), w2)) \<and>
   loop stubborn_stub \<lparr>client = (), sent = []\<rparr> ''T'' ''E'' ''G'' = None"
proof -
  note main = loop_returns_exactly_on_pass
  have ev: "evaluate reviewer_stub world3 ''E'' ''r1'' ''T'' = (Inr (''Pass'', ''ok''), world4)"
    by code_simp
  have up: "toUpperCase ''Pass'' = code_units ''PASS''" by code_simp
  have rf: "refine reviewer_stub ''T'' ''E'' ''G'' [''r0'', ''r1'']
       [\<lparr>thoughts = ''t0'', result = ''r0''\<rparr>, \<lparr>thoughts = ''t1'', result = ''r1''\<rparr>] ''r1'' world3
     = Some (Inr (''r1'', [\<lparr>thoughts = ''t0'', result = ''r0''\<rparr>, \<lparr>thoughts = ''t1'', result = ''r1''\<rparr>]),
             world4)"
    using main [where api = reviewer_stub and w = world3 and evaluatorPrompt = "''E''" and res = "''r1''"
        and task = "''T''" and generatorPrompt = "''G''" and memory = "[''r0'', ''r1'']"
        and cot = "[\<lparr>thoughts = ''t0'', result = ''r0''\<rparr>, \<lparr>thoughts = ''t1'', result = ''r1''\<rparr>]",
        THEN conjunct1, rule_format, OF ev]
    by (simp only: up simp_thms if_True)
  have g0: "generate approving_stub world0 ''G'' ''T'' [] = (Inr (''t'', ''r''), \<lparr>client = 1, sent = [''G\<newline>Task: T'']\<rparr>)"
    by code_simp
  have e0: "evaluate approving_stub \<lparr>client = 1, sent = [''G\<newline>Task: T'']\<rparr> ''E'' ''r'' ''T''
     = (Inr (''pass'', ''f''),
        \<lparr>client = 2, sent = [''G\<newline>Task: T'', ''E\<newline>Original task: T\<newline>Content to evaluate: r'']\<rparr>)"
    by code_simp
  have up0: "toUpperCase ''pass'' = code_units ''PASS''" by code_simp
  have first: "loop approving_stub world0 ''T'' ''E'' ''G''
     = Some (Inr (''r'', [\<lparr>thoughts = ''t'', result = ''r''\<rparr>]),
             \<lparr>client = 2, sent = [''G\<newline>Task: T'', ''E\<newline>Original task: T\<newline>Content to evaluate: r'']\<rparr>)"
    using main [where api = approving_stub and w = world0 and evaluatorPrompt = "''E''"
        and task = "''T''" and generatorPrompt = "''G''",
        THEN conjunct2, THEN conjunct1, rule_format, OF conjI [OF g0 conjI [OF e0 up0]]] .
  have lp: "loop reviewer_stub world0 ''T'' ''E'' ''G''
     = Some (Inr (''r1'', [\<lparr>thoughts = ''t0'', result = ''r0''\<rparr>, \<lparr>thoughts = ''t1'', result = ''r1''\<rparr>]),
             world4)"
    by code_simp
  have ex: "\<exists>w0 verdict feedback.
       evaluate reviewer_stub w0 ''E'' ''r1'' ''T'' = (Inr (verdict, feedback), world4) \<and>
       toUpperCase verdict = code_units ''PASS''"
    using main [where api = reviewer_stub and w = world0 and evaluatorPrompt = "''E''"
        and task = "''T''" and generatorPrompt = "''G''"] lp
    by blast
  have np: "toUpperCase ''PASSED'' \<noteq> code_units ''PASS''" by code_simp
  have E: "\<forall>w c. \<exists>verdict feedback w1.
       evaluate stubborn_stub w ''E'' c ''T'' = (Inr (verdict, feedback), w1) \<and>
       toUpperCase verdict \<noteq> code_units ''PASS''"
    using np
    by (simp add: evaluate_def llmCall_def settle_def issue_def stubborn_stub_def reply_text_def
          stubborn_facts)
  have G: "\<forall>w x. \<exists>thoughts' res' w2.
       generate stubborn_stub w ''G'' ''T'' x = (Inr (thoughts', res'), w2)"
    by (simp add: generate_def llmCall_def settle_def issue_def stubborn_stub_def reply_text_def
          stubborn_facts)
  have never: "loop stubborn_stub \<lparr>client = (), sent = []\<rparr> ''T'' ''E'' ''G'' = None"
    using main [where api = stubborn_stub and evaluatorPrompt = "''E''" and task = "''T''"
        and generatorPrompt = "''G''" and w = "\<lparr>client = (), sent = []\<rparr>"] E G
    by blast
  from ev rf g0 e0 first lp ex E G never show ?thesis by (intro conjI)
qed

text \<open>
  C2 as stated fails for a verdict with a sharp s: \<open>pa\<close> followed by the sharp s is none of
  the spellings of \<open>PASS\<close> in upper and lower case, its upper case is \<open>PASS\<close>, and the loop
  returns on it.
\<close>

theorem loop_returns_on_sharp_s_counterexample:
  "''pa'' @ [CHR 0xDF] \<notin> set pass_spellings \<and>
   evaluate sharp_s_stub \<lparr>client = 1, sent = [''G\<newline>Task: T'']\<rparr> ''E'' ''r'' ''T''
     = (Inr (''pa'' @ [CHR 0xDF], ''f''),
        \<lparr>client = 2, sent = [''G\<newline>Task: T'', ''E\<newline>Original task: T\<newline>Content to evaluate: r'']\<rparr>) \<and>
   loop sharp_s_stub world0 ''T'' ''E'' ''G''
     = Some (Inr (''r'', [\<lparr>thoughts = ''t'', result = ''r''\<rparr>]),
             \<lparr>client = 2, sent = [''G\<newline>Task: T'', ''E\<newline>Original task: T\<newline>Content to evaluate: r'']\<rparr>)"
  by code_simp

section \<open>formatPrompt: results\<close>

lemma greedy_star_close:
  "greedy_star (\<lambda>c. c \<noteq> CHR ''{'' \<and> c \<noteq> CHR ''}'') (lit ''}'' (\<lambda>rest. Some ((), rest))) cs =
     (case dropWhile (\<lambda>c. c \<noteq> CHR ''{'' \<and> c \<noteq> CHR ''}'') cs of
        [] \<Rightarrow> None
      | c # rest \<Rightarrow> if c = CHR ''}'' then Some ((), rest) else None)"
proof (induction cs)
  case Nil
  then show ?case by (simp add: lit_def)
next
  case (Cons c cs)
  show ?case
  proof (cases "c \<noteq> CHR ''{'' \<and> c \<noteq> CHR ''}''")
    case True
    then have "lit ''}'' (\<lambda>rest. Some ((), rest)) (c # cs) = None" by (auto simp: lit_def)
    with True Cons.IH show ?thesis by (simp split: option.splits)
  next
    case False
    then show ?thesis by (auto simp: lit_def)
  qed
qed

lemma placeholder_regex_iff:
  "placeholder_regex s = Some (u, rest) \<longleftrightarrow>
     (\<exists>n. s = ''{'' @ n @ ''}'' @ rest \<and> n \<noteq> [] \<and> brace_free n)"
proof
  assume m: "placeholder_regex s = Some (u, rest)"
  let ?p = "\<lambda>c. c \<noteq> CHR ''{'' \<and> c \<noteq> CHR ''}''"
  from m obtain c cs where s: "s = CHR ''{'' # c # cs" and c: "?p c"
    and g: "greedy_star ?p (lit ''}'' (\<lambda>rest. Some ((), rest))) cs = Some (u, rest)"
    by (cases s; cases "tl s")
       (auto simp: placeholder_regex_def lit_def greedy_plus_def split: if_splits)
  from g have d: "dropWhile ?p cs = CHR ''}'' # rest"
    unfolding greedy_star_close by (auto split: list.splits if_splits)
  have "cs = takeWhile ?p cs @ dropWhile ?p cs" by simp
  with d have cs: "cs = takeWhile ?p cs @ CHR ''}'' # rest" by simp
  have bf: "brace_free (c # takeWhile ?p cs)"
    using c by (auto simp: brace_free_def dest: set_takeWhileD)
  have "s = ''{'' @ (c # takeWhile ?p cs) @ ''}'' @ rest" using s cs by simp
  with bf show "\<exists>n. s = ''{'' @ n @ ''}'' @ rest \<and> n \<noteq> [] \<and> brace_free n" by blast
next
  let ?p = "\<lambda>c. c \<noteq> CHR ''{'' \<and> c \<noteq> CHR ''}''"
  assume "\<exists>n. s = ''{'' @ n @ ''}'' @ rest \<and> n \<noteq> [] \<and> brace_free n"
  then obtain n where s: "s = ''{'' @ n @ ''}'' @ rest" and n: "n \<noteq> []" "brace_free n" by blast
  from n obtain c cs where ncs: "n = c # cs" by (cases n) auto
  from n ncs have c: "?p c" and all: "\<forall>x\<in>set cs. ?p x" by (auto simp: brace_free_def)
  from all have "dropWhile ?p (cs @ CHR ''}'' # rest) = CHR ''}'' # rest"
    by (simp add: dropWhile_append2)
  then have "greedy_star ?p (lit ''}'' (\<lambda>rest. Some ((), rest))) (cs @ CHR ''}'' # rest) = Some ((), rest)"
    unfolding greedy_star_close by simp
  with s ncs c show "placeholder_regex s = Some (u, rest)"
    by (simp add: placeholder_regex_def lit_def greedy_plus_def)
qed

lemma segments_skip:
  "skip \<le> length s \<Longrightarrow> segments m pre skip s = segments m (pre @ take skip s) 0 (drop skip s)"
proof (induction s arbitrary: pre skip)
  case Nil
  then show ?case by simp
next
  case (Cons c cs)
  show ?case
  proof (cases skip)
    case 0
    then show ?thesis by simp
  next
    case (Suc k)
    with Cons.prems have "k \<le> length cs" by simp
    from Cons.IH [OF this, of "pre @ [c]"] Suc show ?thesis by simp
  qed
qed

lemma segments_match:
  "segments m pre 0 (c # cs) =
     (case m (c # cs) of
        None \<Rightarrow> Unmatched c # segments m (pre @ [c]) 0 cs
      | Some (a, rest) \<Rightarrow>
          (let n = length (c # cs) - length rest in
             Matched a (take n (c # cs)) pre rest #
               (if n = 0 then Unmatched c # segments m (pre @ [c]) 0 cs
                else segments m (pre @ [c]) (n - 1) cs)))"
  by simp

lemma segments_sound:
  "Matched a mt b af \<in> set (segments m pre skip s) \<Longrightarrow>
   \<exists>u t rest. s = u @ t \<and> m t = Some (a, rest) \<and> b = pre @ u \<and> mt = take (length t - length rest) t"
proof (induction s arbitrary: pre skip)
  case Nil
  then show ?case by (auto split: if_splits option.splits) metis
next
  case (Cons c cs)
  show ?case
  proof (cases "0 < skip")
    case True
    with Cons.prems have "Matched a mt b af \<in> set (segments m (pre @ [c]) (skip - 1) cs)" by simp
    from Cons.IH [OF this] obtain u t rest where
      "cs = u @ t" "m t = Some (a, rest)" "b = (pre @ [c]) @ u" "mt = take (length t - length rest) t"
      by blast
    then have "c # cs = (c # u) @ t \<and> m t = Some (a, rest) \<and> b = pre @ (c # u) \<and>
        mt = take (length t - length rest) t" by simp
    then show ?thesis by blast
  next
    case False
    then have skip: "skip = 0" by simp
    show ?thesis
    proof (cases "m (c # cs)")
      case None
      with Cons.prems skip have "Matched a mt b af \<in> set (segments m (pre @ [c]) 0 cs)" by simp
      from Cons.IH [OF this] obtain u t rest where
        "cs = u @ t" "m t = Some (a, rest)" "b = (pre @ [c]) @ u" "mt = take (length t - length rest) t"
        by blast
      then have "c # cs = (c # u) @ t \<and> m t = Some (a, rest) \<and> b = pre @ (c # u) \<and>
          mt = take (length t - length rest) t" by simp
      then show ?thesis by blast
    next
      case (Some ar)
      obtain a' rest' where ar: "ar = (a', rest')" by (cases ar)
      let ?n = "length (c # cs) - length rest'"
      from Cons.prems skip Some ar
      consider (here) "Matched a mt b af = Matched a' (take ?n (c # cs)) pre rest'"
        | (later) k where "Matched a mt b af \<in> set (segments m (pre @ [c]) k cs)"
        by (auto simp: Let_def split: if_splits)
      then show ?thesis
      proof cases
        case here
        then have "c # cs = [] @ (c # cs) \<and> m (c # cs) = Some (a, rest') \<and> b = pre @ [] \<and>
            mt = take (length (c # cs) - length rest') (c # cs)"
          using Some ar by simp
        then show ?thesis by blast
      next
        case later
        from Cons.IH [OF this] obtain u t rest where
          "cs = u @ t" "m t = Some (a, rest)" "b = (pre @ [c]) @ u" "mt = take (length t - length rest) t"
          by blast
        then have "c # cs = (c # u) @ t \<and> m t = Some (a, rest) \<and> b = pre @ (c # u) \<and>
            mt = take (length t - length rest) t" by simp
        then show ?thesis by blast
      qed
    qed
  qed
qed

lemma placeholder_found:
  assumes n: "n \<noteq> []" "brace_free n"
  shows "Matched () (''{'' @ n @ ''}'') (pre @ u) v
           \<in> set (segments placeholder_regex pre 0 (u @ ''{'' @ n @ ''}'' @ v))"
proof (induction "length u" arbitrary: u pre rule: less_induct)
  case less
  let ?tok = "''{'' @ n @ ''}''"
  have here: "placeholder_regex (?tok @ v) = Some ((), v)"
    using n by (subst placeholder_regex_iff) auto
  show ?case
  proof (cases u)
    case Nil
    have "?tok @ v = CHR ''{'' # (n @ ''}'' @ v)" by simp
    then have "segments placeholder_regex pre 0 (?tok @ v)
        = segments placeholder_regex pre 0 (CHR ''{'' # (n @ ''}'' @ v))" by simp
    also have "\<dots> = Matched () (take (length n + 2) (CHR ''{'' # (n @ ''}'' @ v))) pre v #
          segments placeholder_regex (pre @ ''{'') (length n + 1) (n @ ''}'' @ v)"
      using here by (subst segments_match) (simp add: Let_def)
    finally show ?thesis using Nil by simp
  next
    case (Cons c u')
    let ?cs = "u' @ ?tok @ v"
    show ?thesis
    proof (cases "placeholder_regex (c # ?cs)")
      case None
      have "length u' < length u" using Cons by simp
      from less [OF this, of "pre @ [c]"]
      have "Matched () ?tok (pre @ u) v \<in> set (segments placeholder_regex (pre @ [c]) 0 ?cs)"
        using Cons by simp
      with None Cons show ?thesis by (simp add: segments_match)
    next
      case (Some ar)
      obtain a rest where ar: "ar = (a, rest)" by (cases ar)
      with Some have "placeholder_regex (c # ?cs) = Some (a, rest)" by simp
      then obtain n1 where s1: "c # ?cs = ''{'' @ n1 @ ''}'' @ rest" and n1: "n1 \<noteq> []" "brace_free n1"
        unfolding placeholder_regex_iff by blast
      let ?L = "length n1 + 2"
      have len: "length (c # ?cs) - length rest = ?L"
        by (subst s1) simp
      have Lu: "?L \<le> length u"
      proof (rule ccontr)
        assume "\<not> ?L \<le> length u"
        then have i: "length u \<le> length n1 + 1" by simp
        have "(u @ ?tok @ v) ! length u = CHR ''{''" by (simp add: nth_append)
        then have a1: "(c # ?cs) ! length u = CHR ''{''" using Cons by simp
        have pos: "0 < length u" using Cons by simp
        have "(''{'' @ n1 @ ''}'' @ rest) ! length u \<noteq> CHR ''{''"
        proof (cases "length u \<le> length n1")
          case True
          with pos have "(''{'' @ n1 @ ''}'' @ rest) ! length u = n1 ! (length u - 1)"
            by (cases "length u") (simp_all add: nth_append)
          moreover have "length u - 1 < length n1" using True pos by arith
          then have "n1 ! (length u - 1) \<in> set n1" by (rule nth_mem)
          ultimately show ?thesis using n1(2) by (auto simp: brace_free_def)
        next
          case False
          with i have "length u = length n1 + 1" by simp
          then have "(''{'' @ n1 @ ''}'' @ rest) ! length u = CHR ''}''"
            by (simp add: nth_append)
          then show ?thesis by simp
        qed
        with a1 s1 show False by simp
      qed
      then have Lu': "?L - 1 \<le> length u'" using Cons by simp
      let ?k = "?L - 1"
      have "segments placeholder_regex pre 0 (c # ?cs)
          = (let n = length (c # ?cs) - length rest in
               Matched a (take n (c # ?cs)) pre rest #
                 (if n = 0 then Unmatched c # segments placeholder_regex (pre @ [c]) 0 ?cs
                  else segments placeholder_regex (pre @ [c]) (n - 1) ?cs))"
        by (subst segments_match) (simp only: Some ar option.case prod.case)
      then have seg: "segments placeholder_regex pre 0 (c # ?cs)
          = Matched a (take ?L (c # ?cs)) pre rest # segments placeholder_regex (pre @ [c]) ?k ?cs"
        unfolding len Let_def by simp
      have "segments placeholder_regex (pre @ [c]) ?k ?cs
          = segments placeholder_regex ((pre @ [c]) @ take ?k ?cs) 0 (drop ?k ?cs)"
        using Lu' by (intro segments_skip) simp
      also have "\<dots> = segments placeholder_regex (pre @ c # take ?k u') 0 (drop ?k u' @ ?tok @ v)"
        using Lu' by simp
      finally have rest_eq: "segments placeholder_regex (pre @ [c]) ?k ?cs
          = segments placeholder_regex (pre @ c # take ?k u') 0 (drop ?k u' @ ?tok @ v)" .
      have "length (drop ?k u') < length u" using Cons by simp
      from less [OF this, of "pre @ c # take ?k u'"]
      have "Matched () ?tok (pre @ u) v
          \<in> set (segments placeholder_regex (pre @ c # take ?k u') 0 (drop ?k u' @ ?tok @ v))"
        using Cons by simp
      with rest_eq seg Cons show ?thesis by simp
    qed
  qed
qed

lemma in_matches: "(a, mt) \<in> set (matches segs) \<longleftrightarrow> (\<exists>b af. Matched a mt b af \<in> set segs)"
proof (induction segs)
  case Nil
  then show ?case by (simp add: matches_def)
next
  case (Cons seg segs)
  then show ?case by (cases seg) (auto simp: matches_def)
qed

lemma remaining_complete:
  assumes "n \<noteq> []" "brace_free n"
  shows "''{'' @ n @ ''}'' \<in> set (remainingPlaceholders (u @ ''{'' @ n @ ''}'' @ v))"
proof -
  from placeholder_found [OF assms, of "[]" u v]
  have "((), ''{'' @ n @ ''}'') \<in> set (matches (segments placeholder_regex [] 0 (u @ ''{'' @ n @ ''}'' @ v)))"
    unfolding in_matches by auto
  then show ?thesis unfolding remainingPlaceholders_def by force
qed

lemma remaining_sound:
  assumes "tok \<in> set (remainingPlaceholders s)"
  shows "\<exists>u n v. s = u @ ''{'' @ n @ ''}'' @ v \<and> n \<noteq> [] \<and> brace_free n \<and> tok = ''{'' @ n @ ''}''"
proof -
  from assms obtain a where "(a, tok) \<in> set (matches (segments placeholder_regex [] 0 s))"
    unfolding remainingPlaceholders_def by auto
  then obtain b af where "Matched a tok b af \<in> set (segments placeholder_regex [] 0 s)"
    unfolding in_matches by blast
  from segments_sound [OF this] obtain u t rest where
    s: "s = u @ t" and m: "placeholder_regex t = Some (a, rest)"
    and tok: "tok = take (length t - length rest) t" by blast
  from m obtain n where t: "t = ''{'' @ n @ ''}'' @ rest" and n: "n \<noteq> []" "brace_free n"
    unfolding placeholder_regex_iff by blast
  have "tok = ''{'' @ n @ ''}''" unfolding tok by (subst (2) t, subst t) simp
  with s t n show ?thesis by blast
qed

lemma remaining_iff: "tok \<in> set (remainingPlaceholders s) \<longleftrightarrow> (\<exists>n. unresolved n s \<and> tok = ''{'' @ n @ ''}'')"
proof
  assume "tok \<in> set (remainingPlaceholders s)"
  from remaining_sound [OF this] show "\<exists>n. unresolved n s \<and> tok = ''{'' @ n @ ''}''"
    unfolding unresolved_def by blast
next
  assume "\<exists>n. unresolved n s \<and> tok = ''{'' @ n @ ''}''"
  then obtain n u v where "n \<noteq> []" "brace_free n" "s = u @ ''{'' @ n @ ''}'' @ v" "tok = ''{'' @ n @ ''}''"
    unfolding unresolved_def by blast
  then show "tok \<in> set (remainingPlaceholders s)" using remaining_complete by blast
qed

lemma remaining_empty: "remainingPlaceholders s = [] \<longleftrightarrow> (\<forall>n. \<not> unresolved n s)"
proof
  assume e: "remainingPlaceholders s = []"
  show "\<forall>n. \<not> unresolved n s"
  proof (intro allI notI)
    fix n assume "unresolved n s"
    then have "''{'' @ n @ ''}'' \<in> set (remainingPlaceholders s)" unfolding remaining_iff by blast
    with e show False by simp
  qed
next
  assume a: "\<forall>n. \<not> unresolved n s"
  show "remainingPlaceholders s = []"
  proof (cases "remainingPlaceholders s")
    case (Cons tok toks)
    then have "tok \<in> set (remainingPlaceholders s)" by simp
    with a show ?thesis unfolding remaining_iff by blast
  qed simp
qed

lemma formatPrompt_cases:
  "formatPrompt template kwargs =
     (if \<exists>n. unresolved n (substitute template kwargs)
      then Inl (MissingPromptVariables (remainingPlaceholders (substitute template kwargs)))
      else Inr (substitute template kwargs))"
  using remaining_empty [of "substitute template kwargs"]
  by (auto simp: formatPrompt_def Let_def)

lemma formatPrompt_Inr:
  "formatPrompt template kwargs = Inr p \<Longrightarrow> p = substitute template kwargs \<and> (\<forall>n. \<not> unresolved n p)"
  unfolding formatPrompt_cases by (auto split: if_splits)












lemma plain_key_literal: "plain_key key \<Longrightarrow> literal_key key"
proof -
  assume k: "plain_key key"
  then obtain c cs where key: "key = c # cs" and c: "identifier_start c" and cs: "list_all identifier_part cs"
    by (cases key) (auto simp: plain_key_def)
  have "x \<notin> set syntax_characters" if "identifier_part x" for x
    using that by (auto simp: identifier_part_def lower_letters_def upper_letters_def syntax_characters_def)
  moreover have "identifier_part c"
    using c by (auto simp: identifier_start_def identifier_part_def)
  ultimately show ?thesis using key cs by (auto simp: literal_key_def list_all_iff)
qed









lemma promise_all_sent:
  assumes "promise_all api latency ps w = Some (r, w')"
  shows "sent w' = sent w @ map fst (pending ps)"
proof (cases "rejected ps")
  case (Cons e es)
  with assms show ?thesis by (auto simp: promise_all_rejected_early sent_foldl_issue)
next
  case Nil
  show ?thesis
  proof (cases "list_all succeeded
           (answers api (completion_order latency (pending ps)) (foldl issue w (map fst (pending ps))))")
    case True
    from promise_all_fulfils [OF Nil True] assms show ?thesis by auto
  next
    case False
    from promise_all_rejects [OF Nil False] assms show ?thesis by auto
  qed
qed

lemma worker_pending_formatted:
  "p \<in> set (map fst (pending (map (worker workerPrompt task ctx) tasks))) \<Longrightarrow>
   \<exists>kwargs. formatPrompt workerPrompt kwargs = Inr p"
proof (induction tasks)
  case Nil
  then show ?case by (simp add: pending_simps)
next
  case (Cons t tasks)
  show ?case
  proof (cases "formatPrompt workerPrompt
             (spread [(''original_task'', task), (''task_type'', type t),
                      (''task_description'', description t)] ctx)")
    case (Inl e)
    with Cons show ?thesis by (simp add: worker_def pending_simps)
  next
    case (Inr q)
    with Cons show ?thesis by (auto simp: worker_def pending_simps)
  qed
qed

text \<open>A worker whose prompt keeps a placeholder is rejected before its call is made; the
  calls of the other workers have gone out by then.\<close>

lemma process_worker_placeholder:
  assumes "formatPrompt orchestratorPrompt (spread [(''task'', task)] ctx) = Inr orchestratorInput"
    and "llmCall api w orchestratorInput = (Inr orchestratorResponse, w1)"
    and "rejected (worker_promises workerPrompt task ctx orchestratorResponse) = e # es"
  shows "process api latency w orchestratorPrompt workerPrompt task ctx =
           Some (Inl e, foldl issue w1
                   (map fst (pending (worker_promises workerPrompt task ctx orchestratorResponse))))"
  by (simp add: process_after_orchestrator [OF assms(1,2)] promise_all_rejected_early [OF assms(3)])

text \<open>
  C5: when the substitution of the task and the context fields into the orchestrator
  template leaves a placeholder, \<open>process\<close> fails with the missing-variable error and the
  world is as it was, so no call has been made; the error lists exactly the placeholders
  left in the text, braces included. Whatever \<open>process\<close> returns, no prompt it has sent
  holds a placeholder.
\<close>

theorem process_rejects_unresolved_placeholder:
  assumes "plain_keys ctx"
  shows
  "((\<exists>n. unresolved n (substitute orchestratorPrompt (spread [(''task'', task)] ctx))) \<longrightarrow>
      process api latency w orchestratorPrompt workerPrompt task ctx =
        Some (Inl (MissingPromptVariables
                (remainingPlaceholders (substitute orchestratorPrompt (spread [(''task'', task)] ctx)))), w)) \<and>
   (\<forall>tok. tok \<in> set (remainingPlaceholders (substitute orchestratorPrompt (spread [(''task'', task)] ctx)))
        \<longleftrightarrow> (\<exists>n. unresolved n (substitute orchestratorPrompt (spread [(''task'', task)] ctx)) \<and>
                  tok = ''{'' @ n @ ''}'')) \<and>
   (\<forall>r w'. process api latency w orchestratorPrompt workerPrompt task ctx = Some (r, w') \<longrightarrow>
      (\<exists>new. sent w' = sent w @ new \<and> (\<forall>p\<in>set new. \<forall>n. \<not> unresolved n p)))"
proof (intro conjI allI impI)
  assume "\<exists>n. unresolved n (substitute orchestratorPrompt (spread [(''task'', task)] ctx))"
  then show "process api latency w orchestratorPrompt workerPrompt task ctx =
        Some (Inl (MissingPromptVariables
                (remainingPlaceholders (substitute orchestratorPrompt (spread [(''task'', task)] ctx)))), w)"
    by (simp add: process_def formatPrompt_cases)
next
  fix tok
  show "tok \<in> set (remainingPlaceholders (substitute orchestratorPrompt (spread [(''task'', task)] ctx)))
        \<longleftrightarrow> (\<exists>n. unresolved n (substitute orchestratorPrompt (spread [(''task'', task)] ctx)) \<and>
                  tok = ''{'' @ n @ ''}'')"
    by (rule remaining_iff)
next
  fix r w'
  assume run: "process api latency w orchestratorPrompt workerPrompt task ctx = Some (r, w')"
  show "\<exists>new. sent w' = sent w @ new \<and> (\<forall>p\<in>set new. \<forall>n. \<not> unresolved n p)"
  proof (cases "formatPrompt orchestratorPrompt (spread [(''task'', task)] ctx)")
    case (Inl e)
    with run have "w' = w" by (simp add: process_def)
    then have "sent w' = sent w @ [] \<and> (\<forall>p\<in>set []. \<forall>n. \<not> unresolved n p)" by simp
    then show ?thesis by blast
  next
    case (Inr oi)
    then have clean: "\<forall>n. \<not> unresolved n oi" by (auto dest: formatPrompt_Inr)
    obtain a w1 where call: "llmCall api w oi = (a, w1)" by (cases "llmCall api w oi")
    then have s1: "sent w1 = sent w @ [oi]" by (rule sent_llmCall)
    show ?thesis
    proof (cases a)
      case (Inl e)
      with run Inr call have "w' = w1" by (simp add: process_def)
      with s1 clean have "sent w' = sent w @ [oi] \<and> (\<forall>p\<in>set [oi]. \<forall>n. \<not> unresolved n p)" by simp
      then show ?thesis by blast
    next
      case resp: (Inr orchestratorResponse)
      let ?ps = "worker_promises workerPrompt task ctx orchestratorResponse"
      from call resp have call': "llmCall api w oi = (Inr orchestratorResponse, w1)" by simp
      from run obtain x where pa: "promise_all api latency ?ps w1 = Some (x, w')"
        unfolding process_after_orchestrator [OF Inr call']
        by (auto split: option.splits sum.splits prod.splits)
      from promise_all_sent [OF pa] s1
      have snt: "sent w' = sent w @ (oi # map fst (pending ?ps))" by simp
      have "\<forall>p\<in>set (oi # map fst (pending ?ps)). \<forall>n. \<not> unresolved n p"
      proof
        fix p assume "p \<in> set (oi # map fst (pending ?ps))"
        then consider "p = oi" | "p \<in> set (map fst (pending ?ps))" by auto
        then show "\<forall>n. \<not> unresolved n p"
        proof cases
          case 1
          with clean show ?thesis by simp
        next
          case 2
          then obtain kwargs where "formatPrompt workerPrompt kwargs = Inr p"
            unfolding worker_promises_def by (blast dest: worker_pending_formatted)
          then show ?thesis by (auto dest: formatPrompt_Inr)
        qed
      qed
      with snt show ?thesis by blast
    qed
  qed
qed

theorem process_rejects_unresolved_placeholder_witness:
  "plain_keys [(''style'', ''brief'')] \<and>
   unresolved ''extra'' (substitute ''Plan {task} in {style} with {extra}''
                          (spread [(''task'', ''T'')] [(''style'', ''brief'')])) \<and>
   process planner_stub (\<lambda>i. 0) world0 ''Plan {task} in {style} with {extra}'' ''Do {task_type}'' ''T''
       [(''style'', ''brief'')]
     = Some (Inl (MissingPromptVariables [''{extra}'']), world0) \<and>
   ''{extra}'' \<in> set (remainingPlaceholders (substitute ''Plan {task} in {style} with {extra}''
                          (spread [(''task'', ''T'')] [(''style'', ''brief'')]))) \<and>
   process planner_stub (\<lambda>i. 0) world0 ''Plan {task} in {style}'' ''Do {task_type}'' ''T''
       [(''style'', ''brief'')]
     = Some (Inr \<lparr>analysis = ''two parts'',
                   worker_results = [\<lparr>type = ''A'', description = ''a'', result' = []\<rparr>,
                                     \<lparr>type = ''B'', description = ''b'', result' = []\<rparr>]\<rparr>,
             \<lparr>client = 3, sent = [''Plan T in brief'', ''Do A'', ''Do B'']\<rparr>) \<and>
   (\<exists>new. sent \<lparr>client = 3 :: nat, sent = [''Plan T in brief'', ''Do A'', ''Do B'']\<rparr> = sent world0 @ new \<and>
          (\<forall>p\<in>set new. \<forall>n. \<not> unresolved n p))"
proof -
  have pk: "plain_keys [(''style'', ''brief'')]" by code_simp
  note main = process_rejects_unresolved_placeholder [OF pk]
  have sub: "substitute ''Plan {task} in {style} with {extra}''
               (spread [(''task'', ''T'')] [(''style'', ''brief'')]) = ''Plan T in brief with {extra}''"
    by code_simp
  have un: "unresolved ''extra'' (substitute ''Plan {task} in {style} with {extra}''
                          (spread [(''task'', ''T'')] [(''style'', ''brief'')]))"
    unfolding sub unresolved_def
    by (intro conjI exI [of _ "''Plan T in brief with ''"] exI [of _ "[]"]) (simp_all add: brace_free_def)
  have rem: "remainingPlaceholders (substitute ''Plan {task} in {style} with {extra}''
                          (spread [(''task'', ''T'')] [(''style'', ''brief'')])) = [''{extra}'']"
    by code_simp
  have fail: "process planner_stub (\<lambda>i. 0) world0 ''Plan {task} in {style} with {extra}'' ''Do {task_type}'' ''T''
       [(''style'', ''brief'')]
     = Some (Inl (MissingPromptVariables [''{extra}'']), world0)"
    using main [where task = "''T''" and orchestratorPrompt = "''Plan {task} in {style} with {extra}''"
        and api = planner_stub and latency = "\<lambda>i. 0" and w = world0 and workerPrompt = "''Do {task_type}''",
        THEN conjunct1] un
    unfolding rem by blast
  have named: "''{extra}'' \<in> set (remainingPlaceholders (substitute ''Plan {task} in {style} with {extra}''
                          (spread [(''task'', ''T'')] [(''style'', ''brief'')])))"
    using main [where task = "''T''" and orchestratorPrompt = "''Plan {task} in {style} with {extra}''",
        THEN conjunct2, THEN conjunct1] un
    by auto
  have run: "process planner_stub (\<lambda>i. 0) world0 ''Plan {task} in {style}'' ''Do {task_type}'' ''T''
       [(''style'', ''brief'')]
     = Some (Inr \<lparr>analysis = ''two parts'',
                   worker_results = [\<lparr>type = ''A'', description = ''a'', result' = []\<rparr>,
                                     \<lparr>type = ''B'', description = ''b'', result' = []\<rparr>]\<rparr>,
             \<lparr>client = 3, sent = [''Plan T in brief'', ''Do A'', ''Do B'']\<rparr>)"
    by code_simp
  have clean: "\<exists>new. sent \<lparr>client = 3 :: nat, sent = [''Plan T in brief'', ''Do A'', ''Do B'']\<rparr> = sent world0 @ new \<and>
          (\<forall>p\<in>set new. \<forall>n. \<not> unresolved n p)"
    using main [where task = "''T''" and orchestratorPrompt = "''Plan {task} in {style}''"
        and api = planner_stub and latency = "\<lambda>i. 0" and w = world0 and workerPrompt = "''Do {task_type}''",
        THEN conjunct2, THEN conjunct2, rule_format, OF run] .
  from pk un fail named run clean show ?thesis by (intro conjI)
qed

end
